theory Spec2Isabelle
  imports Complex_Main "HOL-Library.Word"
begin

section \<open>Strings and numbers of the host language\<close>

text \<open>
  A string of the source is a sequence of UTF-16 code units, so it is modelled as a list
  of 16-bit words. \<open>js\<close> embeds an ASCII literal; a character outside ASCII is written
  as its code unit (for example \<open>0xE1\<close> for a-acute).
\<close>

type_synonym jsstring = "16 word list"

definition js :: "string \<Rightarrow> jsstring" where
  "js s = map (\<lambda>c. of_nat (of_char c)) s"

text \<open>
  The decimal digits of a non-negative integer: what a template literal \<^verbatim>\<open>${i}\<close> and
  \<^verbatim>\<open>Date.now().toString()\<close> produce.
\<close>

fun dec :: "nat \<Rightarrow> jsstring" where
  "dec n = (if n < 10 then [of_nat (48 + n)] else dec (n div 10) @ [of_nat (48 + n mod 10)])"

declare dec.simps [simp del]

text \<open>
  The class \<^verbatim>\<open>\s\<close> of a regular expression, which is also what \<^verbatim>\<open>String.prototype.trim\<close>
  strips: the WhiteSpace and LineTerminator code points of ECMAScript.
\<close>

definition isSpace :: "16 word \<Rightarrow> bool" where
  "isSpace c \<longleftrightarrow>
     c \<in> set [0x09, 0x0A, 0x0B, 0x0C, 0x0D, 0x20, 0xA0, 0x1680, 0x2028, 0x2029,
               0x202F, 0x205F, 0x3000, 0xFEFF]
     \<or> (0x2000 \<le> c \<and> c \<le> 0x200A)"

text \<open>\<^verbatim>\<open>!text.trim()\<close>: the trimmed text is the empty string.\<close>

definition trimIsEmpty :: "jsstring \<Rightarrow> bool" where
  "trimIsEmpty text \<longleftrightarrow> list_all isSpace text"

text \<open>\<^verbatim>\<open>s.startsWith(t)\<close> and \<^verbatim>\<open>s.includes(t)\<close> on code units.\<close>

fun startsWith :: "jsstring \<Rightarrow> jsstring \<Rightarrow> bool" where
  "startsWith s [] = True"
| "startsWith [] (y # ys) = False"
| "startsWith (x # xs) (y # ys) = (x = y \<and> startsWith xs ys)"

fun includes_str :: "jsstring \<Rightarrow> jsstring \<Rightarrow> bool" where
  "includes_str [] t = (t = [])"
| "includes_str (x # xs) t = (startsWith (x # xs) t \<or> includes_str xs t)"


section \<open>Data model (types.ts and the BatchItem interface of Downloader.tsx)\<close>

datatype media_type = Video | Audio

datatype content_type = CVideo | CAudio | CImage | CUnknown

text \<open>\<^verbatim>\<open>contentType: downloadType\<close> stores a media type where a content type is expected.\<close>

fun content_of :: "media_type \<Rightarrow> content_type" where
  "content_of Video = CVideo"
| "content_of Audio = CAudio"

record AnalysisResult =
  platform :: jsstring
  isValid :: bool
  summary :: jsstring
  contentType :: content_type
  thumbnailUrl :: "jsstring option"
  isPlaylist :: "bool option"

record HistoryItem =
  id_hist :: jsstring
  url_hist :: jsstring
  platform_hist :: jsstring
  timestamp :: nat
  summary_hist :: jsstring

datatype status = Idle | Analyzing | Ready | Downloading | Completed | Error

text \<open>
  \<open>progress\<close> is a \<^verbatim>\<open>number\<close> in the source. Every value the code stores in it is an
  integer (0, 100, or a result of \<^verbatim>\<open>Math.round\<close>), so the field is an \<open>int\<close>.
\<close>

record BatchItem =
  id_item :: jsstring
  url :: jsstring
  status :: status
  progress :: int
  speed :: jsstring
  phase :: jsstring
  timeLeft :: jsstring
  result :: "AnalysisResult option"
  errorMsg :: "jsstring option"
  suggestion :: "jsstring option"
  helpLink :: "jsstring option"
  type_item :: media_type


section \<open>State of the Downloader component and of its environment\<close>

text \<open>
  The closure of one \<^verbatim>\<open>setInterval\<close> callback of \<^verbatim>\<open>startDownload\<close>: the item it
  updates, its local variable \<^verbatim>\<open>progress\<close> and the constant \<^verbatim>\<open>isAudio\<close>. The local
  variable is a double in the source and a rational here.
\<close>

record timer =
  itemId :: jsstring
  acc :: rat
  isAudio :: bool

text \<open>
  The four \<^verbatim>\<open>useState\<close> cells and the \<^verbatim>\<open>intervalsRef\<close> dictionary of the component,
  followed by the part of the browser the code acts on: the active intervals (a handle
  returned by \<^verbatim>\<open>setInterval\<close> is a positive integer, hence truthy, so
  \<^verbatim>\<open>if (intervalsRef.current[id])\<close> tests that the key is present), the
  \<^verbatim>\<open>analyzeLink\<close> promises not yet settled (item id and url), the calls of
  \<^verbatim>\<open>startDownload\<close> that have been made or scheduled and have not yet run their effects
  (item id and the \<^verbatim>\<open>queue\<close> of the render whose closure is called), and the value stored
  under \<^verbatim>\<open>vortex_media_history\<close> in local storage (as the list that was serialised).

  A handler a click invokes runs on the queue of the current render. \<^verbatim>\<open>startDownload\<close>
  is different: \<^verbatim>\<open>handleDownloadAll\<close> defers it by a timeout, and it awaits the
  notification permission between its guard and its effects, so the queue its guard reads
  (the constant \<^verbatim>\<open>queue\<close> of its closure) can be older than the state its effects
  act on.
\<close>

record downloader =
  inputText :: jsstring
  queue :: "BatchItem list"
  history :: "HistoryItem list"
  downloadType :: media_type
  intervalsRef :: "jsstring \<rightharpoonup> nat"
  timers :: "nat \<rightharpoonup> timer"
  pending :: "(jsstring \<times> jsstring) list"
  scheduled :: "(jsstring \<times> BatchItem list) list"
  storage :: "HistoryItem list option"

definition initial :: downloader where
  "initial = \<lparr> inputText = [], queue = [], history = [], downloadType = Video,
               intervalsRef = Map.empty, timers = Map.empty, pending = [],
               scheduled = [], storage = None \<rparr>"

text \<open>The mount effect: the stored history, when there is one, becomes the history.\<close>

definition mount :: "HistoryItem list option \<Rightarrow> downloader" where
  "mount stored =
     (case stored of
        None \<Rightarrow> initial
      | Some h \<Rightarrow> initial \<lparr> history := h, storage := Some h \<rparr>)"


section \<open>History\<close>

text \<open>
  What \<^verbatim>\<open>addToHistory\<close> reads from its environment: the two calls of \<^verbatim>\<open>Date.now()\<close>
  and the string of \<^verbatim>\<open>Math.random()\<close> appended to the first.
\<close>

record stamp =
  now_id :: nat
  random_id :: jsstring
  now_ts :: nat

definition newHistoryItem :: "stamp \<Rightarrow> AnalysisResult \<Rightarrow> jsstring \<Rightarrow> HistoryItem" where
  "newHistoryItem st resultData link =
     \<lparr> id_hist = dec (now_id st) @ random_id st,
       url_hist = link,
       platform_hist = platform resultData,
       timestamp = now_ts st,
       summary_hist = summary resultData \<rparr>"

definition addToHistory :: "stamp \<Rightarrow> AnalysisResult \<Rightarrow> jsstring \<Rightarrow> downloader \<Rightarrow> downloader" where
  "addToHistory st resultData link s =
     (if \<not> isValid resultData then s
      else
        let newItem = newHistoryItem st resultData link;
            filtered = filter (\<lambda>item. url_hist item \<noteq> link) (history s);
            updated = take 5 (newItem # filtered)
        in s \<lparr> history := updated, storage := Some updated \<rparr>)"

definition clearHistory :: "downloader \<Rightarrow> downloader" where
  "clearHistory s = s \<lparr> history := [], storage := None \<rparr>"


text \<open>An example of a full history: five entries with five urls.\<close>

definition ex_entry :: "nat \<Rightarrow> HistoryItem" where
  "ex_entry k = \<lparr> id_hist = dec k, url_hist = js ''http://h'' @ dec k,
                  platform_hist = js ''YouTube'', timestamp = k, summary_hist = js ''clip'' \<rparr>"

definition ex_history :: "HistoryItem list" where
  "ex_history = map ex_entry [1, 2, 3, 4, 5]"

text \<open>A session of additions to the history, in their order.\<close>

definition addAll :: "(stamp \<times> AnalysisResult \<times> jsstring) list \<Rightarrow> downloader \<Rightarrow> downloader" where
  "addAll adds s = foldl (\<lambda>s' (st, r, link). addToHistory st r link s') s adds"


section \<open>The batch queue\<close>

definition updateItem :: "jsstring \<Rightarrow> (BatchItem \<Rightarrow> BatchItem) \<Rightarrow> downloader \<Rightarrow> downloader" where
  "updateItem ident updates s =
     s \<lparr> queue := map (\<lambda>item. if id_item item = ident then updates item else item) (queue s) \<rparr>"

definition handleInputChange :: "jsstring \<Rightarrow> downloader \<Rightarrow> downloader" where
  "handleInputChange v s = s \<lparr> inputText := v \<rparr>"

text \<open>\<open>clip\<close> is the text read from the clipboard; a failed read leaves the state as it is.\<close>

definition handlePaste :: "jsstring option \<Rightarrow> downloader \<Rightarrow> downloader" where
  "handlePaste clip s =
     (case clip of
        None \<Rightarrow> s
      | Some text \<Rightarrow>
          if text = [] then s
          else s \<lparr> inputText := (if inputText s \<noteq> [] then inputText s @ [0x0A] @ text else text) \<rparr>)"

subsection \<open>Extraction of the urls\<close>

text \<open>
  The regular expression \<^verbatim>\<open>/(https?:\/\/[^\s]+)/g\<close> under \<^verbatim>\<open>String.prototype.match\<close>:
  the matches are taken from left to right without overlap; a match starts with
  \<^verbatim>\<open>http://\<close> or \<^verbatim>\<open>https://\<close> and runs over the longest non-empty stretch of
  code units that are not white space.
\<close>

definition schemeLength :: "jsstring \<Rightarrow> nat option" where
  "schemeLength text =
     (if startsWith text (js ''https://'') then Some 8
      else if startsWith text (js ''http://'') then Some 7
      else None)"

function extractUrls :: "jsstring \<Rightarrow> jsstring list" where
  "extractUrls [] = []"
| "extractUrls (c # cs) =
     (case schemeLength (c # cs) of
        None \<Rightarrow> extractUrls cs
      | Some k \<Rightarrow>
          if takeWhile (\<lambda>x. \<not> isSpace x) (drop k (c # cs)) = [] then extractUrls cs
          else (take k (c # cs) @ takeWhile (\<lambda>x. \<not> isSpace x) (drop k (c # cs)))
               # extractUrls (dropWhile (\<lambda>x. \<not> isSpace x) (drop k (c # cs))))"
  by pat_completeness auto
termination
proof (relation "measure length")
  fix c :: "16 word" and cs :: jsstring and k :: nat
  assume k: "schemeLength (c # cs) = Some k"
  have "0 < k"
    using k by (auto simp: schemeLength_def split: if_splits)
  then have "length (drop k (c # cs)) < length (c # cs)"
    by simp
  moreover have "length (dropWhile (\<lambda>x. \<not> isSpace x) (drop k (c # cs))) \<le> length (drop k (c # cs))"
    by (rule length_dropWhile_le)
  ultimately show "(dropWhile (\<lambda>x. \<not> isSpace x) (drop k (c # cs)), c # cs) \<in> measure length"
    by simp
qed simp_all

text \<open>
  \<^verbatim>\<open>Array.from(new Set(rawUrls))\<close>: a Set keeps its elements in the order of their first
  insertion.
\<close>

definition Set_add :: "'a list \<Rightarrow> 'a \<Rightarrow> 'a list" where
  "Set_add elems x = (if x \<in> set elems then elems else elems @ [x])"

definition Array_from_Set :: "'a list \<Rightarrow> 'a list" where
  "Array_from_Set xs = foldl Set_add [] xs"

subsection \<open>Analysis of a batch\<close>

definition newBatchItem :: "media_type \<Rightarrow> jsstring \<Rightarrow> jsstring \<Rightarrow> BatchItem" where
  "newBatchItem t ident u =
     \<lparr> id_item = ident, url = u, status = Analyzing, progress = 0,
       speed = js ''0 MB/s'', phase = js ''Iniciando...'', timeLeft = js ''--'',
       result = None, errorMsg = None, suggestion = None, helpLink = None,
       type_item = t \<rparr>"

text \<open>
  \<open>uuid k\<close> is the result of the \<open>k\<close>-th call (from 0) of \<^verbatim>\<open>crypto.randomUUID()\<close> made by
  the handler.
\<close>

definition newItemsOf :: "(nat \<Rightarrow> jsstring) \<Rightarrow> media_type \<Rightarrow> jsstring list \<Rightarrow> BatchItem list" where
  "newItemsOf uuid t uniqueUrls =
     map (\<lambda>(k, u). newBatchItem t (uuid k) u) (enumerate 0 uniqueUrls)"

definition handleAnalyzeBatch :: "(nat \<Rightarrow> jsstring) \<Rightarrow> downloader \<Rightarrow> downloader" where
  "handleAnalyzeBatch uuid s =
     (if trimIsEmpty (inputText s) then s
      else
        let rawUrls = extractUrls (inputText s);
            uniqueUrls = Array_from_Set rawUrls
        in if uniqueUrls = [] then s
           else
             let newItems = newItemsOf uuid (downloadType s) uniqueUrls;
                 filteredNew = filter (\<lambda>i. url i \<notin> set (map url (queue s))) newItems
             in s \<lparr> queue := filteredNew @ queue s,
                    inputText := [],
                    pending := pending s @ map (\<lambda>i. (id_item i, url i)) newItems \<rparr>)"

subsection \<open>The analysis service (analyzeLink)\<close>

text \<open>
  What \<^verbatim>\<open>ai.models.generateContent\<close> does for the prompt built from a url: it throws, or
  it returns a response whose \<^verbatim>\<open>text\<close> is undefined or a string.
\<close>

datatype api_outcome = ApiThrows | ApiResponse "jsstring option"

datatype exn = ApiError | NoResponseText | SyntaxError

definition fallbackResult :: AnalysisResult where
  "fallbackResult =
     \<lparr> platform = js ''Desconocida'', isValid = False,
       summary = js ''No pudimos identificar este enlace.'',
       contentType = CUnknown, thumbnailUrl = None, isPlaylist = Some False \<rparr>"

text \<open>
  The body of the \<^verbatim>\<open>try\<close> block. \<open>parse\<close> stands for \<^verbatim>\<open>JSON.parse\<close> followed by the
  cast to \<^verbatim>\<open>AnalysisResult\<close>; it is \<open>None\<close> where \<^verbatim>\<open>JSON.parse\<close> throws. An empty
  \<^verbatim>\<open>response.text\<close> is falsy, like an undefined one.
\<close>

definition analyzeLink_try ::
    "(jsstring \<Rightarrow> AnalysisResult option) \<Rightarrow> (jsstring \<Rightarrow> api_outcome) \<Rightarrow> jsstring
     \<Rightarrow> exn + AnalysisResult" where
  "analyzeLink_try parse ai link =
     (case ai link of
        ApiThrows \<Rightarrow> Inl ApiError
      | ApiResponse None \<Rightarrow> Inl NoResponseText
      | ApiResponse (Some text) \<Rightarrow>
          if text = [] then Inl NoResponseText
          else (case parse text of None \<Rightarrow> Inl SyntaxError | Some r \<Rightarrow> Inr r))"

text \<open>The \<^verbatim>\<open>catch\<close> clause turns every exception of the body into the fallback result.\<close>

definition analyzeLink ::
    "(jsstring \<Rightarrow> AnalysisResult option) \<Rightarrow> (jsstring \<Rightarrow> api_outcome) \<Rightarrow> jsstring
     \<Rightarrow> exn + AnalysisResult" where
  "analyzeLink parse ai link =
     (case analyzeLink_try parse ai link of
        Inl e \<Rightarrow> Inr fallbackResult
      | Inr r \<Rightarrow> Inr r)"

text \<open>
  The callback \<^verbatim>\<open>handleAnalyzeBatch\<close> runs for each new item once \<^verbatim>\<open>analyzeLink\<close> has
  settled: \<open>awaited\<close> is what the \<^verbatim>\<open>await\<close> yields.
\<close>

definition analysisSettled :: "jsstring \<Rightarrow> exn + AnalysisResult \<Rightarrow> downloader \<Rightarrow> downloader" where
  "analysisSettled ident awaited s =
     (case awaited of
        Inr data \<Rightarrow>
          if isValid data
          then updateItem ident (\<lambda>i. i \<lparr> status := Ready, result := Some data \<rparr>) s
          else updateItem ident
                 (\<lambda>i. i \<lparr> status := Error, errorMsg := Some (js ''Plataforma no soportada''),
                          result := Some data \<rparr>) s
      | Inl e \<Rightarrow>
          updateItem ident
            (\<lambda>i. i \<lparr> status := Error,
                     errorMsg := Some (js ''Error de conexi'' @ [0xF3] @ js ''n'') \<rparr>) s)"

text \<open>One pending analysis settles: its promise leaves the pending ones, its callback runs.\<close>

definition analysisCallback ::
    "(jsstring \<Rightarrow> AnalysisResult option) \<Rightarrow> (jsstring \<Rightarrow> api_outcome) \<Rightarrow> jsstring \<times> jsstring
     \<Rightarrow> downloader \<Rightarrow> downloader" where
  "analysisCallback parse ai p s =
     analysisSettled (fst p) (analyzeLink parse ai (snd p))
       (s \<lparr> pending := remove1 p (pending s) \<rparr>)"

subsection \<open>Expansion of a playlist\<close>

fun findIndex :: "('a \<Rightarrow> bool) \<Rightarrow> 'a list \<Rightarrow> nat option" where
  "findIndex P [] = None"
| "findIndex P (x # xs) = (if P x then Some 0 else map_option Suc (findIndex P xs))"

definition subItem :: "media_type \<Rightarrow> BatchItem \<Rightarrow> jsstring \<Rightarrow> jsstring \<Rightarrow> nat \<Rightarrow> BatchItem" where
  "subItem t item plat ident i =
     \<lparr> id_item = ident,
       url = url item @ js ''&index='' @ dec i,
       status = Ready, progress = 0,
       speed = js ''0 MB/s'', phase = js ''Listo'', timeLeft = js ''--'',
       result = Some
         \<lparr> platform = plat, isValid = True,
           summary = (if t = Audio then js ''Track'' else js ''Episodio'')
                     @ js '' #'' @ dec i @ js '' de la lista'',
           contentType = content_of t,
           thumbnailUrl = (case result item of None \<Rightarrow> None | Some r \<Rightarrow> thumbnailUrl r),
           isPlaylist = Some False \<rparr>,
       errorMsg = None, suggestion = None, helpLink = None,
       type_item = t \<rparr>"

text \<open>The loop \<^verbatim>\<open>for (i = 1; i <= mockCount; i++)\<close>; its \<open>i\<close>-th pass makes call \<open>i - 1\<close> of
  \<^verbatim>\<open>crypto.randomUUID()\<close>.\<close>

definition subItems ::
    "(nat \<Rightarrow> jsstring) \<Rightarrow> media_type \<Rightarrow> BatchItem \<Rightarrow> jsstring \<Rightarrow> nat \<Rightarrow> BatchItem list" where
  "subItems uuid t item plat mockCount =
     map (\<lambda>i. subItem t item plat (uuid (i - 1)) i) [1 ..< Suc mockCount]"

text \<open>\<open>draw\<close> is \<^verbatim>\<open>Math.floor(Math.random() * 5)\<close>.\<close>

definition expandPlaylist ::
    "(nat \<Rightarrow> jsstring) \<Rightarrow> nat \<Rightarrow> jsstring \<Rightarrow> jsstring \<Rightarrow> downloader \<Rightarrow> downloader" where
  "expandPlaylist uuid draw ident plat s =
     (case find (\<lambda>i. id_item i = ident) (queue s) of
        None \<Rightarrow> s
      | Some item \<Rightarrow>
          let mockCount = draw + 3;
              newItems = subItems uuid (downloadType s) item plat mockCount
          in (case findIndex (\<lambda>q. id_item q = ident) (queue s) of
                None \<Rightarrow> s
              | Some index \<Rightarrow>
                  s \<lparr> queue := take index (queue s) @ newItems @ drop (Suc index) (queue s) \<rparr>))"

subsection \<open>Simulated download\<close>

definition clearInterval :: "nat \<Rightarrow> downloader \<Rightarrow> downloader" where
  "clearInterval h s = s \<lparr> timers := (timers s)(h := None) \<rparr>"

text \<open>
  \<open>snapshot\<close> is the constant \<^verbatim>\<open>queue\<close> of the closure that is called: the guard reads it.
  \<open>s\<close> is the state when the part after \<^verbatim>\<open>await requestNotificationPermission()\<close> runs:
  the effects act on it. \<open>h\<close> is the handle \<^verbatim>\<open>setInterval\<close> returns, \<open>st\<close> what
  \<^verbatim>\<open>addToHistory\<close> reads from clock and random generator. The request for the
  notification permission does not touch the state.
\<close>

definition startDownload ::
    "stamp \<Rightarrow> nat \<Rightarrow> jsstring \<Rightarrow> BatchItem list \<Rightarrow> downloader \<Rightarrow> downloader" where
  "startDownload st h ident snapshot s =
     (case find (\<lambda>q. id_item q = ident) snapshot of
        None \<Rightarrow> s
      | Some item \<Rightarrow>
          if status item \<noteq> Ready then s
          else
            let s1 = (case result item of
                        None \<Rightarrow> s
                      | Some r \<Rightarrow>
                          if \<not> includes_str (url item) (js ''&index='')
                          then addToHistory st r (url item) s else s);
                s2 = updateItem ident (\<lambda>i. i \<lparr> status := Downloading, progress := 0 \<rparr>) s1;
                s3 = (case intervalsRef s2 ident of
                        None \<Rightarrow> s2
                      | Some old \<Rightarrow> clearInterval old s2)
            in s3 \<lparr> timers := (timers s3)
                       (h \<mapsto> \<lparr> itemId = ident, acc = 0, isAudio = (type_item item = Audio) \<rparr>),
                    intervalsRef := (intervalsRef s3)(ident \<mapsto> h) \<rparr>)"

text \<open>
  A click on the download button of an item calls \<^verbatim>\<open>startDownload\<close> of the current
  render; \<^verbatim>\<open>handleDownloadAll\<close> sets a timeout that calls it, for each ready item of the
  current render. Either way the call is one more scheduled call that holds the current
  queue.
\<close>

definition startDownloadCall :: "jsstring \<Rightarrow> downloader \<Rightarrow> downloader" where
  "startDownloadCall ident s = s \<lparr> scheduled := scheduled s @ [(ident, queue s)] \<rparr>"

definition handleDownloadAll :: "downloader \<Rightarrow> downloader" where
  "handleDownloadAll s =
     s \<lparr> scheduled := scheduled s
           @ map (\<lambda>item. (id_item item, queue s)) (filter (\<lambda>item. status item = Ready) (queue s)) \<rparr>"

text \<open>A scheduled call runs: it leaves the scheduled ones and acts on the state of that moment.\<close>

definition startDownloadRun ::
    "stamp \<Rightarrow> nat \<Rightarrow> jsstring \<times> BatchItem list \<Rightarrow> downloader \<Rightarrow> downloader" where
  "startDownloadRun st h c s =
     startDownload st h (fst c) (snd c) (s \<lparr> scheduled := remove1 c (scheduled s) \<rparr>)"

definition phaseOf :: "bool \<Rightarrow> rat \<Rightarrow> jsstring" where
  "phaseOf audio p =
     (if p < 20 then js ''Conectando...''
      else if p < 50 then (if audio then js ''Extrayendo audio HQ...'' else js ''Descargando video...'')
      else if p < 80 then (if audio then js ''Convirtiendo a MP3...'' else js ''Procesando MP4...'')
      else if p < 99 then js ''Etiquetando...''
      else 0xA1 # js ''Listo!'')"

text \<open>\<^verbatim>\<open>Math.round\<close> rounds a half upwards.\<close>

definition Math_round :: "rat \<Rightarrow> int" where
  "Math_round x = \<lfloor>x + 1 / 2\<rfloor>"

text \<open>
  One run of the interval callback with handle \<open>h\<close>: \<open>increment\<close> is
  \<^verbatim>\<open>Math.random() * 5 + 1\<close> and \<open>speedVal\<close> the string of
  \<^verbatim>\<open>(Math.random() * 8 + 5).toFixed(1)\<close>. A handle that is not active has no callback to
  run.
\<close>

definition tick :: "rat \<Rightarrow> jsstring \<Rightarrow> nat \<Rightarrow> downloader \<Rightarrow> downloader" where
  "tick increment speedVal h s =
     (case timers s h of
        None \<Rightarrow> s
      | Some t \<Rightarrow>
          let p = acc t + increment;
              ph = phaseOf (isAudio t) p
          in if p \<ge> 100 then
               let s1 = s \<lparr> timers := (timers s)(h \<mapsto> t \<lparr> acc := 100 \<rparr>) \<rparr>;
                   s2 = (case intervalsRef s1 (itemId t) of
                           None \<Rightarrow> s1
                         | Some registered \<Rightarrow> clearInterval registered s1);
                   s3 = s2 \<lparr> intervalsRef := (intervalsRef s2)(itemId t := None) \<rparr>
               in updateItem (itemId t)
                    (\<lambda>i. i \<lparr> status := Completed, progress := 100,
                             phase := js ''Guardado'', timeLeft := js ''0s'' \<rparr>) s3
             else
               updateItem (itemId t)
                 (\<lambda>i. i \<lparr> progress := min 100 (Math_round p), phase := ph,
                          speed := speedVal @ js '' MB/s'' \<rparr>)
                 (s \<lparr> timers := (timers s)(h \<mapsto> t \<lparr> acc := p \<rparr>) \<rparr>))"

definition removeItem :: "jsstring \<Rightarrow> downloader \<Rightarrow> downloader" where
  "removeItem ident s =
     (let s1 = (case intervalsRef s ident of
                  None \<Rightarrow> s
                | Some h \<Rightarrow> clearInterval h s)
      in s1 \<lparr> queue := filter (\<lambda>i. id_item i \<noteq> ident) (queue s1) \<rparr>)"

text \<open>The two buttons that choose the download type.\<close>

definition chooseDownloadType :: "media_type \<Rightarrow> downloader \<Rightarrow> downloader" where
  "chooseDownloadType t s =
     s \<lparr> downloadType := t,
         queue := map (\<lambda>i. if status i = Ready then i \<lparr> type_item := t \<rparr> else i) (queue s) \<rparr>"

subsection \<open>The states the component can reach\<close>

text \<open>
  The identifiers drawn by one handler are fresh: \<^verbatim>\<open>crypto.randomUUID()\<close> returns neither
  an identifier twice nor one that a queue item carries.
\<close>

definition freshIds :: "jsstring list \<Rightarrow> downloader \<Rightarrow> bool" where
  "freshIds ids s \<longleftrightarrow> distinct ids \<and> list_all (\<lambda>x. x \<notin> set (map id_item (queue s))) ids"

text \<open>
  The component starts from its mount and then runs one handler or callback at a time:
  the text area and the paste button, the analysis of the pasted text, the callback of an
  analysis that is still pending, the expansion of a playlist (\<^verbatim>\<open>Math.random()\<close> is below 1,
  so \<open>draw\<close> is below 5), a call of \<^verbatim>\<open>startDownload\<close> by a click or by
  \<^verbatim>\<open>handleDownloadAll\<close>, the run of a scheduled call (\<^verbatim>\<open>setInterval\<close> returns a positive
  handle it has not returned before),
  a run of an active interval (\<^verbatim>\<open>Math.random() * 5 + 1\<close> lies between 1 and 6), the
  removal of an item, the choice of the download type, and the clearing of the history.
\<close>

inductive reachable :: "downloader \<Rightarrow> bool" where
  r_mount: "reachable (mount stored)"
| r_input: "reachable s \<Longrightarrow> reachable (handleInputChange v s)"
| r_paste: "reachable s \<Longrightarrow> reachable (handlePaste clip s)"
| r_analyze:
    "reachable s \<Longrightarrow>
     freshIds (map uuid [0 ..< length (Array_from_Set (extractUrls (inputText s)))]) s \<Longrightarrow>
     reachable (handleAnalyzeBatch uuid s)"
| r_settled: "reachable s \<Longrightarrow> p \<in> set (pending s) \<Longrightarrow> reachable (analysisCallback parse ai p s)"
| r_expand:
    "reachable s \<Longrightarrow> draw < 5 \<Longrightarrow> freshIds (map uuid [0 ..< draw + 3]) s \<Longrightarrow>
     reachable (expandPlaylist uuid draw ident plat s)"
| r_call: "reachable s \<Longrightarrow> reachable (startDownloadCall ident s)"
| r_all: "reachable s \<Longrightarrow> reachable (handleDownloadAll s)"
| r_start:
    "reachable s \<Longrightarrow> c \<in> set (scheduled s) \<Longrightarrow>
     0 < h \<Longrightarrow> timers s h = None \<Longrightarrow> h \<notin> ran (intervalsRef s) \<Longrightarrow>
     reachable (startDownloadRun st h c s)"
| r_tick:
    "reachable s \<Longrightarrow> timers s h \<noteq> None \<Longrightarrow> 1 \<le> increment \<Longrightarrow> increment < 6 \<Longrightarrow>
     reachable (tick increment speedVal h s)"
| r_remove: "reachable s \<Longrightarrow> reachable (removeItem ident s)"
| r_type: "reachable s \<Longrightarrow> reachable (chooseDownloadType t s)"
| r_clear: "reachable s \<Longrightarrow> reachable (clearHistory s)"


subsection \<open>Invariants of the reachable states\<close>

text \<open>No two items of the queue have the same id.\<close>

definition ids_distinct :: "downloader \<Rightarrow> bool" where
  "ids_distinct s \<longleftrightarrow> distinct (map id_item (queue s))"

text \<open>The progress of an item is a percentage, and it is 100 once the item is completed.\<close>

definition progress_ok :: "downloader \<Rightarrow> bool" where
  "progress_ok s \<longleftrightarrow>
     (\<forall>item \<in> set (queue s).
        0 \<le> progress item \<and> progress item \<le> 100
        \<and> (status item = Completed \<longrightarrow> progress item = 100))"

text \<open>
  An active interval has counted a non-negative progress, is the one registered for its
  item, and its item is not completed.
\<close>

definition timers_ok :: "downloader \<Rightarrow> bool" where
  "timers_ok s \<longleftrightarrow>
     (\<forall>h t. timers s h = Some t \<longrightarrow>
        0 \<le> acc t \<and> intervalsRef s (itemId t) = Some h
        \<and> (\<forall>item \<in> set (queue s). id_item item = itemId t \<longrightarrow> status item \<noteq> Completed))"

text \<open>No handle is registered for two items.\<close>

definition handles_inj :: "downloader \<Rightarrow> bool" where
  "handles_inj s \<longleftrightarrow>
     (\<forall>a b h. intervalsRef s a = Some h \<longrightarrow> intervalsRef s b = Some h \<longrightarrow> a = b)"

text \<open>The statuses the code assigns.\<close>

definition assigned_statuses :: "status list" where
  "assigned_statuses = [Analyzing, Ready, Downloading, Completed, Error]"


subsection \<open>An example session\<close>

text \<open>
  One link is typed and analysed, the analysis finds a valid video, the download button
  is clicked, the download starts, and the interval runs with an increment of 5 each
  time.
\<close>

definition ex_uuid :: "nat \<Rightarrow> jsstring" where
  "ex_uuid k = js ''id'' @ dec k"

definition ex_result :: AnalysisResult where
  "ex_result = \<lparr> platform = js ''YouTube'', isValid = True, summary = js ''clip'',
                  contentType = CVideo, thumbnailUrl = None, isPlaylist = Some False \<rparr>"

definition ex_analyzing :: downloader where
  "ex_analyzing = handleAnalyzeBatch ex_uuid (handleInputChange (js ''http://a'') (mount None))"

definition ex_ready :: downloader where
  "ex_ready = analysisCallback (\<lambda>t. Some ex_result) (\<lambda>u. ApiResponse (Some (js ''{}'')))
                (js ''id0'', js ''http://a'') ex_analyzing"

definition ex_failed :: downloader where
  "ex_failed = analysisCallback (\<lambda>t. None) (\<lambda>u. ApiThrows) (js ''id0'', js ''http://a'') ex_analyzing"

definition ex_clicked :: downloader where
  "ex_clicked = startDownloadCall (js ''id0'') ex_ready"

definition ex_started :: downloader where
  "ex_started = startDownloadRun \<lparr> now_id = 17, random_id = js ''0.5'', now_ts = 17 \<rparr> 1
                  (js ''id0'', queue ex_ready) ex_clicked"

definition ex_ticks :: "nat \<Rightarrow> downloader" where
  "ex_ticks n = ((tick 5 (js ''7.5'') 1) ^^ n) ex_started"

text \<open>
  A second session: two links are analysed, the second is found valid, "download all" is
  clicked, the second item is removed before its timeout fires, and then the scheduled
  call runs.
\<close>

definition ex2_analyzing :: downloader where
  "ex2_analyzing =
     handleAnalyzeBatch ex_uuid (handleInputChange (js ''http://a http://b'') (mount None))"

definition ex2_ready :: downloader where
  "ex2_ready = analysisCallback (\<lambda>t. Some ex_result) (\<lambda>u. ApiResponse (Some (js ''{}'')))
                 (js ''id1'', js ''http://b'') ex2_analyzing"

definition ex2_all :: downloader where
  "ex2_all = handleDownloadAll ex2_ready"

definition ex2_removed :: downloader where
  "ex2_removed = removeItem (js ''id1'') ex2_all"

definition ex2_stale :: downloader where
  "ex2_stale = startDownloadRun \<lparr> now_id = 17, random_id = js ''0.5'', now_ts = 17 \<rparr> 1
                 (js ''id1'', queue ex2_ready) ex2_removed"


section \<open>The video service (generateVideo) and the generator (handleGenerate)\<close>

text \<open>
  A thrown value is falsy or an object; of an object the handler reads \<^verbatim>\<open>message\<close>,
  \<^verbatim>\<open>status\<close> and \<^verbatim>\<open>response?.status\<close>, each of which may be undefined.
\<close>

record js_error =
  message :: "jsstring option"
  status_err :: "int option"
  response_status :: "int option"

datatype thrown = Falsy | Err js_error

text \<open>
  An operation of the video API, and one answer of the API: the first answers
  \<^verbatim>\<open>generateVideos\<close>, each later one a call of \<^verbatim>\<open>getVideosOperation\<close>.
\<close>

record operation =
  done_op :: bool
  uri_op :: "jsstring option"

datatype api_answer = Throws thrown | Returns operation

text \<open>
  The polling loop, run against the answers the API gives. The result is \<open>None\<close> when the
  answers end before the operation is done: the loop is still waiting. An exception is
  logged and thrown again as it is.
\<close>

fun polling :: "jsstring \<Rightarrow> operation \<Rightarrow> api_answer list \<Rightarrow> (thrown + jsstring option) option" where
  "polling apiKey oper answers =
     (if done_op oper then
        (case uri_op oper of
           None \<Rightarrow> Some (Inr None)
         | Some u \<Rightarrow> if u = [] then Some (Inr None) else Some (Inr (Some (u @ js ''&key='' @ apiKey))))
      else
        (case answers of
           [] \<Rightarrow> None
         | Throws e # rest \<Rightarrow> Some (Inl e)
         | Returns oper' # rest \<Rightarrow> polling apiKey oper' rest))"

declare polling.simps [simp del]

definition generateVideo :: "jsstring \<Rightarrow> api_answer list \<Rightarrow> (thrown + jsstring option) option" where
  "generateVideo apiKey answers =
     (case answers of
        [] \<Rightarrow> None
      | Throws e # rest \<Rightarrow> Some (Inl e)
      | Returns oper # rest \<Rightarrow> polling apiKey oper rest)"

record generator =
  prompt :: jsstring
  isGenerating :: bool
  videoUri :: "jsstring option"
  error :: "jsstring option"
  hasKey :: bool
  resolution :: jsstring
  aspectRatio :: jsstring

definition msgGeneric :: jsstring where
  "msgGeneric = js ''Hubo un error generando el video. Intenta de nuevo.''"

definition msgKey :: jsstring where
  "msgKey = js ''La llave API seleccionada no es v'' @ [0xE1]
     @ js ''lida o el proyecto no tiene acceso al modelo Veo. Por favor selecciona una nueva.''"

definition msgInvalid :: jsstring where
  "msgInvalid = js ''La descripci'' @ [0xF3] @ js ''n proporcionada no es v'' @ [0xE1]
     @ js ''lida. Por favor, s'' @ [0xE9] @ js '' m'' @ [0xE1] @ js ''s espec'' @ [0xED]
     @ js ''fico o evita contenido que viole las pol'' @ [0xED] @ js ''ticas de seguridad.''"

definition msgPermission :: jsstring where
  "msgPermission = js ''Permiso denegado. Verifica que tu API Key tenga habilitada la facturaci''
     @ [0xF3] @ js ''n en Google Cloud Console.''"

definition msgQuota :: jsstring where
  "msgQuota = js ''Has excedido el l'' @ [0xED]
     @ js ''mite de cuota de la API. Por favor intenta m'' @ [0xE1] @ js ''s tarde.''"

definition msgUnavailable :: jsstring where
  "msgUnavailable = js ''El servicio de video est'' @ [0xE1]
     @ js '' temporalmente saturado. Int'' @ [0xE9] @ js ''ntalo de nuevo en unos minutos.''"

definition msgSafety :: jsstring where
  "msgSafety = js ''La solicitud fue bloqueada por los filtros de seguridad. Intenta modificar tu descripci''
     @ [0xF3] @ js ''n.''"

text \<open>\<^verbatim>\<open>err.message || ''\<close> and \<^verbatim>\<open>err.status || err.response?.status\<close>: an undefined or zero
  status is falsy.\<close>

definition messageOf :: "js_error \<Rightarrow> jsstring" where
  "messageOf e = (case message e of None \<Rightarrow> [] | Some m \<Rightarrow> m)"

definition statusOf :: "js_error \<Rightarrow> int option" where
  "statusOf e =
     (case status_err e of
        None \<Rightarrow> response_status e
      | Some n \<Rightarrow> if n = 0 then response_status e else Some n)"

text \<open>The messages the handler can show.\<close>

definition errorMessages :: "jsstring list" where
  "errorMessages =
     [msgKey, msgInvalid, msgPermission, msgQuota, msgUnavailable, msgSafety, msgGeneric]"

text \<open>The \<^verbatim>\<open>catch\<close> clause of \<^verbatim>\<open>handleGenerate\<close>.\<close>

definition catchClause :: "thrown \<Rightarrow> generator \<Rightarrow> generator" where
  "catchClause err g =
     (case err of
        Falsy \<Rightarrow> g \<lparr> error := Some msgGeneric \<rparr>
      | Err e \<Rightarrow>
          let msg = messageOf e; st = statusOf e
          in if includes_str msg (js ''Requested entity was not found'') \<or> st = Some 404
             then g \<lparr> hasKey := False, error := Some msgKey \<rparr>
             else if st = Some 400 \<or> includes_str msg (js ''INVALID_ARGUMENT'')
             then g \<lparr> error := Some msgInvalid \<rparr>
             else if st = Some 403 \<or> includes_str msg (js ''PERMISSION_DENIED'')
             then g \<lparr> error := Some msgPermission \<rparr>
             else if st = Some 429 \<or> includes_str msg (js ''RESOURCE_EXHAUSTED'')
             then g \<lparr> error := Some msgQuota \<rparr>
             else if st = Some 503 \<or> includes_str msg (js ''UNAVAILABLE'')
             then g \<lparr> error := Some msgUnavailable \<rparr>
             else if includes_str msg (js ''SAFETY'')
             then g \<lparr> error := Some msgSafety \<rparr>
             else g \<lparr> error := Some msgGeneric \<rparr>)"

text \<open>
  \<open>outcome\<close> is what the call of \<^verbatim>\<open>generateVideo\<close> does: \<open>None\<close> while it has not
  returned, in which case the \<^verbatim>\<open>finally\<close> clause has not run either.
\<close>

definition handleGenerate :: "(thrown + jsstring option) option \<Rightarrow> generator \<Rightarrow> generator" where
  "handleGenerate outcome g =
     (if trimIsEmpty (prompt g) then g
      else
        let g1 = g \<lparr> isGenerating := True, error := None, videoUri := None \<rparr>
        in (case outcome of
              None \<Rightarrow> g1
            | Some (Inr u) \<Rightarrow> g1 \<lparr> videoUri := u, isGenerating := False \<rparr>
            | Some (Inl err) \<Rightarrow> (catchClause err g1) \<lparr> isGenerating := False \<rparr>))"


section \<open>Properties of the history\<close>

lemma distinct_map_take: "distinct (map f xs) \<Longrightarrow> distinct (map f (take n xs))"
  by (simp add: take_map [symmetric])

lemma distinct_map_filter_urls: "distinct (map f xs) \<Longrightarrow> distinct (map f (filter P xs))"
  by (rule distinct_map_filter)

lemma addToHistory_distinct:
  assumes "distinct (map url_hist (history s))"
  shows "distinct (map url_hist (history (addToHistory st r link s)))"
proof (cases "isValid r")
  case False
  with assms show ?thesis by (simp add: addToHistory_def)
next
  case True
  let ?new = "newHistoryItem st r link"
  let ?rest = "filter (\<lambda>item. url_hist item \<noteq> link) (history s)"
  have h: "history (addToHistory st r link s) = ?new # take 4 ?rest"
    using True by (simp add: addToHistory_def Let_def take_Cons')
  have u: "url_hist ?new = link"
    by (simp add: newHistoryItem_def)
  have "distinct (map url_hist (take 4 ?rest))"
    using assms by (intro distinct_map_take distinct_map_filter_urls)
  moreover have "link \<notin> url_hist ` set (take 4 ?rest)"
    by (auto dest: in_set_takeD)
  ultimately show ?thesis unfolding h using u by simp
qed

lemma addAll_distinct:
  "distinct (map url_hist (history s)) \<Longrightarrow> distinct (map url_hist (history (addAll adds s)))"
  unfolding addAll_def
  by (induction adds arbitrary: s) (auto simp: addToHistory_distinct)

text \<open>
  Claim C1, as the code has it. For a valid analysis result, \<open>addToHistory\<close> changes the
  history and the stored history, and nothing else, to the new item followed by the first
  four of the old entries whose url is not the added one, in their old order. So the
  history has at most five entries, its head is the new item, and exactly one entry of it
  carries the url that was added. It has at most one entry per url whenever the history
  before had at most one entry per url; every history built by additions from the empty
  one is of that kind.
\<close>

theorem addToHistory_capped:
  assumes "isValid r"
  shows "addToHistory st r link s =
           s \<lparr> history := newHistoryItem st r link
                   # take 4 (filter (\<lambda>h. url_hist h \<noteq> link) (history s)),
               storage := Some (newHistoryItem st r link
                   # take 4 (filter (\<lambda>h. url_hist h \<noteq> link) (history s))) \<rparr>
       \<and> length (history (addToHistory st r link s)) \<le> 5
       \<and> hd (history (addToHistory st r link s)) = newHistoryItem st r link
       \<and> history (addToHistory st r link s) \<noteq> []
       \<and> length (filter (\<lambda>h. url_hist h = link) (history (addToHistory st r link s))) = 1
       \<and> (distinct (map url_hist (history s))
            \<longrightarrow> distinct (map url_hist (history (addToHistory st r link s))))
       \<and> distinct (map url_hist (history (addAll adds (mount None))))"
proof -
  let ?new = "newHistoryItem st r link"
  let ?rest = "filter (\<lambda>item. url_hist item \<noteq> link) (history s)"
  have e: "addToHistory st r link s =
      s \<lparr> history := ?new # take 4 ?rest, storage := Some (?new # take 4 ?rest) \<rparr>"
    using assms by (simp add: addToHistory_def Let_def take_Cons')
  have h: "history (addToHistory st r link s) = ?new # take 4 ?rest"
    unfolding e by simp
  have u: "url_hist ?new = link"
    by (simp add: newHistoryItem_def)
  have none: "filter (\<lambda>h. url_hist h = link) (take 4 ?rest) = []"
    by (auto simp: filter_empty_conv dest: in_set_takeD)
  have dist: "distinct (map url_hist (history s))
            \<longrightarrow> distinct (map url_hist (history (addToHistory st r link s)))"
    by (rule impI) (rule addToHistory_distinct)
  have clean: "distinct (map url_hist (history (addAll adds (mount None))))"
    by (rule addAll_distinct) (simp add: mount_def initial_def)
  have "length (history (addToHistory st r link s)) \<le> 5
       \<and> hd (history (addToHistory st r link s)) = ?new
       \<and> history (addToHistory st r link s) \<noteq> []
       \<and> length (filter (\<lambda>h. url_hist h = link) (history (addToHistory st r link s))) = 1"
    unfolding h using u none by simp
  with e dist clean show ?thesis by (intro conjI) simp_all
qed

text \<open>
  On the full example history: adding the url of its third entry again moves that url to
  the front and keeps the four others; adding a sixth url drops the last entry.
\<close>

theorem addToHistory_capped_witness:
  "isValid ex_result
   \<and> map url_hist ex_history
       = [js ''http://h1'', js ''http://h2'', js ''http://h3'', js ''http://h4'', js ''http://h5'']
   \<and> map url_hist (history (addToHistory \<lparr> now_id = 17, random_id = js ''0.5'', now_ts = 17 \<rparr>
         ex_result (js ''http://h3'') (mount (Some ex_history))))
       = [js ''http://h3'', js ''http://h1'', js ''http://h2'', js ''http://h4'', js ''http://h5'']
   \<and> map timestamp (history (addToHistory \<lparr> now_id = 17, random_id = js ''0.5'', now_ts = 17 \<rparr>
         ex_result (js ''http://h3'') (mount (Some ex_history))))
       = [17, 1, 2, 4, 5]
   \<and> map url_hist (history (addToHistory \<lparr> now_id = 17, random_id = js ''0.5'', now_ts = 17 \<rparr>
         ex_result (js ''http://h6'') (mount (Some ex_history))))
       = [js ''http://h6'', js ''http://h1'', js ''http://h2'', js ''http://h3'', js ''http://h4'']
   \<and> storage (addToHistory \<lparr> now_id = 17, random_id = js ''0.5'', now_ts = 17 \<rparr>
         ex_result (js ''http://h6'') (mount (Some ex_history)))
       = Some (history (addToHistory \<lparr> now_id = 17, random_id = js ''0.5'', now_ts = 17 \<rparr>
         ex_result (js ''http://h6'') (mount (Some ex_history))))"
proof -
  let ?st = "\<lparr> now_id = 17, random_id = js ''0.5'', now_ts = 17 \<rparr>"
  let ?s = "mount (Some ex_history)"
  have valid: "isValid ex_result"
    by (simp add: ex_result_def)
  have urls: "map url_hist ex_history
       = [js ''http://h1'', js ''http://h2'', js ''http://h3'', js ''http://h4'', js ''http://h5'']"
    by (simp add: ex_history_def ex_entry_def js_def dec.simps)
  have stamps: "map timestamp ex_history = [1, 2, 3, 4, 5]"
    by (simp add: ex_history_def ex_entry_def)
  have old: "history ?s = ex_history"
    by (simp add: mount_def)
  note again = addToHistory_capped [OF valid, of ?st "js ''http://h3''" ?s "[]", THEN conjunct1]
  note sixth = addToHistory_capped [OF valid, of ?st "js ''http://h6''" ?s "[]", THEN conjunct1]
  have a: "map url_hist (history (addToHistory ?st ex_result (js ''http://h3'') ?s))
       = [js ''http://h3'', js ''http://h1'', js ''http://h2'', js ''http://h4'', js ''http://h5'']"
    unfolding again old
    by (simp add: newHistoryItem_def ex_history_def ex_entry_def js_def dec.simps)
  have b: "map timestamp (history (addToHistory ?st ex_result (js ''http://h3'') ?s)) = [17, 1, 2, 4, 5]"
    unfolding again old
    by (simp add: newHistoryItem_def ex_history_def ex_entry_def js_def dec.simps)
  have c: "map url_hist (history (addToHistory ?st ex_result (js ''http://h6'') ?s))
       = [js ''http://h6'', js ''http://h1'', js ''http://h2'', js ''http://h3'', js ''http://h4'']"
    unfolding sixth old
    by (simp add: newHistoryItem_def ex_history_def ex_entry_def js_def dec.simps)
  have d: "storage (addToHistory ?st ex_result (js ''http://h6'') ?s)
       = Some (history (addToHistory ?st ex_result (js ''http://h6'') ?s))"
    unfolding sixth by simp
  from valid urls a b c d show ?thesis by (intro conjI)
qed

text \<open>
  Claim C1 as stated quantifies over every history. A history that already holds two
  entries with one url (the mount effect installs whatever local storage holds) keeps
  both when another url is added.
\<close>

theorem addToHistory_duplicates_counterexample:
  "isValid \<lparr> platform = js ''YouTube'', isValid = True, summary = js ''clip'',
             contentType = CVideo, thumbnailUrl = None, isPlaylist = Some False \<rparr>
   \<and> \<not> distinct (map url_hist (history (addToHistory
        \<lparr> now_id = 17, random_id = js ''0.5'', now_ts = 17 \<rparr>
        \<lparr> platform = js ''YouTube'', isValid = True, summary = js ''clip'',
          contentType = CVideo, thumbnailUrl = None, isPlaylist = Some False \<rparr>
        (js ''http://b'')
        (mount (Some
          [\<lparr> id_hist = js ''1'', url_hist = js ''http://a'', platform_hist = js ''YouTube'',
             timestamp = 1, summary_hist = js ''one'' \<rparr>,
           \<lparr> id_hist = js ''2'', url_hist = js ''http://a'', platform_hist = js ''YouTube'',
             timestamp = 2, summary_hist = js ''two'' \<rparr>])))))"
  by (simp add: addToHistory_def mount_def initial_def newHistoryItem_def js_def Let_def)

section \<open>Properties of the batch queue\<close>

lemma set_foldl_Set_add: "set (foldl Set_add ys xs) = set ys \<union> set xs"
  by (induction xs arbitrary: ys) (auto simp: Set_add_def)

lemma distinct_foldl_Set_add: "distinct ys \<Longrightarrow> distinct (foldl Set_add ys xs)"
  by (induction xs arbitrary: ys) (auto simp: Set_add_def)

lemma set_Array_from_Set: "set (Array_from_Set xs) = set xs"
  by (simp add: Array_from_Set_def set_foldl_Set_add)

lemma distinct_Array_from_Set: "distinct (Array_from_Set xs)"
  by (simp add: Array_from_Set_def distinct_foldl_Set_add)

lemma url_newItemsOf: "map url (newItemsOf uuid t us) = us"
proof -
  have "map url (newItemsOf uuid t us) = map (\<lambda>p. snd p) (enumerate 0 us)"
    by (simp add: newItemsOf_def newBatchItem_def case_prod_unfold comp_def)
  also have "\<dots> = us" by simp
  finally show ?thesis .
qed

lemma id_newItemsOf: "map id_item (newItemsOf uuid t us) = map uuid [0 ..< length us]"
proof -
  have "map id_item (newItemsOf uuid t us) = map (\<lambda>p. uuid (fst p)) (enumerate 0 us)"
    by (simp add: newItemsOf_def newBatchItem_def case_prod_unfold comp_def)
  also have "\<dots> = map uuid (map fst (enumerate 0 us))"
    by (simp only: map_map comp_def)
  also have "\<dots> = map uuid [0 ..< length us]" by simp
  finally show ?thesis .
qed

lemma map_url_filter:
  "map url (filter (\<lambda>i. url i \<notin> E) items) = filter (\<lambda>u. u \<notin> E) (map url items)"
  by (simp add: filter_map comp_def)

lemma schemeLength_space: "isSpace c \<Longrightarrow> schemeLength (c # cs) = None"
proof -
  assume "isSpace c"
  moreover have "\<not> isSpace 0x68" by (simp add: isSpace_def)
  ultimately have "c \<noteq> 0x68" by auto
  then show ?thesis by (simp add: schemeLength_def js_def)
qed

lemma extractUrls_blank: "trimIsEmpty inp \<Longrightarrow> extractUrls inp = []"
  unfolding trimIsEmpty_def
  by (induction inp) (simp_all add: schemeLength_space)

text \<open>
  Claim C2. The items \<open>handleAnalyzeBatch\<close> adds are put in front of the queue; no two of
  them have the same url, and their urls are exactly the extracted urls that no item of
  the queue carries already. So a url pasted twice yields one item, and a url that is in
  the queue yields none.
\<close>

theorem handleAnalyzeBatch_dedup:
  "\<exists>added. queue (handleAnalyzeBatch uuid s) = added @ queue s
     \<and> distinct (map url added)
     \<and> set (map url added) = set (extractUrls (inputText s)) - set (map url (queue s))"
proof (cases "trimIsEmpty (inputText s) \<or> Array_from_Set (extractUrls (inputText s)) = []")
  case True
  then have "queue (handleAnalyzeBatch uuid s) = [] @ queue s"
    by (auto simp: handleAnalyzeBatch_def Let_def)
  moreover have "set (extractUrls (inputText s)) = {}"
    using True set_Array_from_Set [of "extractUrls (inputText s)"]
    by (auto simp: extractUrls_blank)
  ultimately show ?thesis by (intro exI [of _ "[]"]) simp
next
  case False
  let ?us = "Array_from_Set (extractUrls (inputText s))"
  let ?added = "filter (\<lambda>i. url i \<notin> set (map url (queue s))) (newItemsOf uuid (downloadType s) ?us)"
  have q: "queue (handleAnalyzeBatch uuid s) = ?added @ queue s"
    using False by (simp add: handleAnalyzeBatch_def Let_def)
  have u: "map url ?added = filter (\<lambda>u. u \<notin> set (map url (queue s))) ?us"
    by (simp only: map_url_filter url_newItemsOf)
  have "distinct (map url ?added)"
    unfolding u by (simp add: distinct_Array_from_Set)
  moreover have "set (map url ?added) = set (extractUrls (inputText s)) - set (map url (queue s))"
    unfolding u by (auto simp: set_Array_from_Set)
  ultimately show ?thesis using q by blast
qed

text \<open>The same url pasted twice into an empty queue gives one entry.\<close>

theorem handleAnalyzeBatch_dedup_witness:
  "map url (queue (handleAnalyzeBatch (\<lambda>k. js ''id'' @ dec k)
      (initial \<lparr> inputText := js ''http://a http://a'' \<rparr>))) = [js ''http://a'']"
  using handleAnalyzeBatch_dedup [of "\<lambda>k. js ''id'' @ dec k" "initial \<lparr> inputText := js ''http://a http://a'' \<rparr>"]
  by (simp add: handleAnalyzeBatch_def initial_def js_def trimIsEmpty_def isSpace_def
      schemeLength_def Array_from_Set_def Set_add_def newItemsOf_def newBatchItem_def Let_def)

lemma findIndex_None: "findIndex P xs = None \<longleftrightarrow> (\<forall>x\<in>set xs. \<not> P x)"
  by (induction xs) auto

lemma findIndex_Some:
  "findIndex P xs = Some k \<Longrightarrow>
     k < length xs \<and> P (xs ! k) \<and> (\<forall>j<k. \<not> P (xs ! j)) \<and> find P xs = Some (xs ! k)"
proof (induction xs arbitrary: k)
  case Nil
  then show ?case by simp
next
  case (Cons x xs)
  show ?case
  proof (cases "P x")
    case True
    with Cons.prems show ?thesis by simp
  next
    case False
    with Cons.prems obtain k' where k': "findIndex P xs = Some k'" "k = Suc k'"
      by auto
    from Cons.IH [OF k'(1)] False k'(2) show ?thesis
      by (auto simp: less_Suc_eq_0_disj)
  qed
qed

lemma length_subItems: "length (subItems uuid t item plat n) = n"
  by (simp add: subItems_def)

lemma subItems_props:
  assumes "sub \<in> set (subItems uuid t item plat n)"
  shows "status sub = Ready \<and> progress sub = 0 \<and> type_item sub = t
       \<and> (\<exists>i. 1 \<le> i \<and> i \<le> n \<and> id_item sub = uuid (i - 1)
                \<and> url sub = url item @ js ''&index='' @ dec i)
       \<and> (\<exists>r. result sub = Some r \<and> isValid r \<and> isPlaylist r = Some False \<and> platform r = plat)"
proof -
  from assms obtain i where i: "1 \<le> i" "i \<le> n" "sub = subItem t item plat (uuid (i - 1)) i"
    by (auto simp: subItems_def)
  show ?thesis
    unfolding i(3) using i(1,2) by (auto simp: subItem_def)
qed

lemma expandPlaylist_absent:
  assumes "ident \<notin> id_item ` set (queue s)"
  shows "expandPlaylist uuid draw ident plat s = s"
proof -
  from assms have "find (\<lambda>i. id_item i = ident) (queue s) = None"
    by (auto simp: find_None_iff)
  then show ?thesis by (simp add: expandPlaylist_def)
qed

lemma expandPlaylist_present:
  assumes "ident \<in> id_item ` set (queue s)"
  shows "\<exists>k < length (queue s). id_item (queue s ! k) = ident
           \<and> (\<forall>j<k. id_item (queue s ! j) \<noteq> ident)
           \<and> expandPlaylist uuid draw ident plat s =
               s \<lparr> queue := take k (queue s)
                     @ subItems uuid (downloadType s) (queue s ! k) plat (draw + 3)
                     @ drop (Suc k) (queue s) \<rparr>"
proof -
  from assms have "findIndex (\<lambda>q. id_item q = ident) (queue s) \<noteq> None"
    by (auto simp: findIndex_None)
  then obtain k where k: "findIndex (\<lambda>q. id_item q = ident) (queue s) = Some k"
    by auto
  note f = findIndex_Some [OF k]
  have "expandPlaylist uuid draw ident plat s =
          s \<lparr> queue := take k (queue s)
                @ subItems uuid (downloadType s) (queue s ! k) plat (draw + 3)
                @ drop (Suc k) (queue s) \<rparr>"
    using f k by (simp add: expandPlaylist_def Let_def)
  with f show ?thesis by blast
qed

text \<open>
  Claim C6. When no item of the queue has the given id, \<open>expandPlaylist\<close> changes nothing.
  Otherwise the first item with that id is replaced, at its position \<open>k\<close>, by the
  generated sub-items: the items before and after it stay as they are and where they
  are. There are \<open>draw + 3\<close> sub-items, each with status ready, progress 0, a url made
  of the parent's url, \<^verbatim>\<open>&index=\<close> and its number, and a result that is not a playlist.
\<close>

theorem expandPlaylist_in_place:
  "(ident \<notin> id_item ` set (queue s) \<longrightarrow> expandPlaylist uuid draw ident plat s = s)
   \<and> (ident \<in> id_item ` set (queue s) \<longrightarrow>
        (\<exists>k < length (queue s). id_item (queue s ! k) = ident
           \<and> (\<forall>j<k. id_item (queue s ! j) \<noteq> ident)
           \<and> expandPlaylist uuid draw ident plat s =
               s \<lparr> queue := take k (queue s)
                     @ subItems uuid (downloadType s) (queue s ! k) plat (draw + 3)
                     @ drop (Suc k) (queue s) \<rparr>))
   \<and> length (subItems uuid t item plat n) = n
   \<and> (\<forall>sub \<in> set (subItems uuid t item plat n).
         status sub = Ready \<and> progress sub = 0
         \<and> (\<exists>i. 1 \<le> i \<and> i \<le> n \<and> id_item sub = uuid (i - 1)
                \<and> url sub = url item @ js ''&index='' @ dec i)
         \<and> (\<exists>r. result sub = Some r \<and> isPlaylist r = Some False))"
proof -
  have "\<forall>sub \<in> set (subItems uuid t item plat n).
         status sub = Ready \<and> progress sub = 0
         \<and> (\<exists>i. 1 \<le> i \<and> i \<le> n \<and> id_item sub = uuid (i - 1)
                \<and> url sub = url item @ js ''&index='' @ dec i)
         \<and> (\<exists>r. result sub = Some r \<and> isPlaylist r = Some False)"
    using subItems_props [of _ uuid t item plat n] by blast
  then show ?thesis
    using expandPlaylist_absent [of ident s uuid draw plat]
      expandPlaylist_present [of ident s uuid draw plat]
      length_subItems [of uuid t item plat n]
    by blast
qed

theorem expandPlaylist_in_place_witness:
  "js ''b'' \<in> id_item ` set (queue (initial \<lparr> queue := [newBatchItem Video (js ''a'') (js ''http://p''),
                             newBatchItem Video (js ''b'') (js ''http://q''),
                             newBatchItem Video (js ''c'') (js ''http://r'')] \<rparr>))
  \<and> js ''z'' \<notin> id_item ` set (queue (initial \<lparr> queue := [newBatchItem Video (js ''a'') (js ''http://p''),
                             newBatchItem Video (js ''b'') (js ''http://q''),
                             newBatchItem Video (js ''c'') (js ''http://r'')] \<rparr>))
  \<and> map (\<lambda>i. (id_item i, url i, status i)) (queue (expandPlaylist (\<lambda>k. js ''s'' @ dec k) 0 (js ''b'') (js ''YouTube'')
    (initial \<lparr> queue := [newBatchItem Video (js ''a'') (js ''http://p''),
                             newBatchItem Video (js ''b'') (js ''http://q''),
                             newBatchItem Video (js ''c'') (js ''http://r'')] \<rparr>))) = 
  [(js ''a'', js ''http://p'', Analyzing), (js ''s0'', js ''http://q&index=1'', Ready),
   (js ''s1'', js ''http://q&index=2'', Ready),
   (js ''s2'', js ''http://q&index=3'', Ready), (js ''c'', js ''http://r'', Analyzing)]
  \<and> expandPlaylist (\<lambda>k. js ''s'' @ dec k) 0 (js ''z'') (js ''YouTube'')
    (initial \<lparr> queue := [newBatchItem Video (js ''a'') (js ''http://p''),
                             newBatchItem Video (js ''b'') (js ''http://q''),
                             newBatchItem Video (js ''c'') (js ''http://r'')] \<rparr>)
    = initial \<lparr> queue := [newBatchItem Video (js ''a'') (js ''http://p''),
                             newBatchItem Video (js ''b'') (js ''http://q''),
                             newBatchItem Video (js ''c'') (js ''http://r'')] \<rparr>"
proof -
  let ?s = "initial \<lparr> queue := [newBatchItem Video (js ''a'') (js ''http://p''),
                             newBatchItem Video (js ''b'') (js ''http://q''),
                             newBatchItem Video (js ''c'') (js ''http://r'')] \<rparr>"
  let ?uuid = "\<lambda>k. js ''s'' @ dec k"
  have present: "js ''b'' \<in> id_item ` set (queue ?s)"
    by (simp add: newBatchItem_def)
  have absent: "js ''z'' \<notin> id_item ` set (queue ?s)"
    by (simp add: newBatchItem_def js_def)
  have expanded: "map (\<lambda>i. (id_item i, url i, status i)) (queue (expandPlaylist ?uuid 0 (js ''b'') (js ''YouTube'') ?s)) =
      [(js ''a'', js ''http://p'', Analyzing), (js ''s0'', js ''http://q&index=1'', Ready),
       (js ''s1'', js ''http://q&index=2'', Ready),
       (js ''s2'', js ''http://q&index=3'', Ready), (js ''c'', js ''http://r'', Analyzing)]"
    by (simp add: expandPlaylist_def initial_def newBatchItem_def js_def subItems_def subItem_def
        dec.simps Let_def upt_rec)
  from expandPlaylist_in_place [of "js ''z''" ?s ?uuid 0 "js ''YouTube''"] absent
  have unchanged: "expandPlaylist ?uuid 0 (js ''z'') (js ''YouTube'') ?s = ?s"
    by blast
  from expandPlaylist_in_place [of "js ''b''" ?s ?uuid 0 "js ''YouTube''"] present
  have "\<exists>k < length (queue ?s). id_item (queue ?s ! k) = js ''b''"
    by blast
  with present absent expanded unchanged show ?thesis by blast
qed


section \<open>Properties of the analysis service and of the generator\<close>

lemma analyzeLink_try_fails:
  "ai link = ApiThrows \<or> ai link = ApiResponse None \<or> ai link = ApiResponse (Some [])
   \<Longrightarrow> \<exists>e. analyzeLink_try parse ai link = Inl e"
  by (auto simp: analyzeLink_try_def)

lemma analyzeLink_Inr: "\<exists>r. analyzeLink parse ai link = Inr r"
  by (simp add: analyzeLink_def split: sum.split)

lemma analyzeLink_fallback:
  "ai link = ApiThrows \<or> ai link = ApiResponse None \<or> ai link = ApiResponse (Some [])
   \<Longrightarrow> analyzeLink parse ai link = Inr fallbackResult"
  using analyzeLink_try_fails [of ai link parse] by (auto simp: analyzeLink_def)

lemma analysisCallback_fallback:
  assumes "analyzeLink parse ai link = Inr fallbackResult"
  shows "queue (analysisCallback parse ai (ident, link) s) =
           map (\<lambda>i. if id_item i = ident
                    then i \<lparr> status := Error, errorMsg := Some (js ''Plataforma no soportada''),
                             result := Some fallbackResult \<rparr>
                    else i) (queue s)"
proof -
  have "\<not> isValid fallbackResult" by (simp add: fallbackResult_def)
  then show ?thesis
    by (simp add: analysisCallback_def analysisSettled_def updateItem_def assms)
qed

lemma analysisCallback_marks:
  assumes "analyzeLink parse ai link = Inr fallbackResult"
    and "item \<in> set (queue (analysisCallback parse ai (ident, link) s))"
    and "id_item item = ident"
  shows "status item = Error \<and> errorMsg item = Some (js ''Plataforma no soportada'')"
proof -
  from assms(2) obtain i where i: "item = (if id_item i = ident
                    then i \<lparr> status := Error, errorMsg := Some (js ''Plataforma no soportada''),
                             result := Some fallbackResult \<rparr>
                    else i)"
    unfolding analysisCallback_fallback [OF assms(1)] set_map by (rule imageE)
  show ?thesis
    using assms(3) unfolding i by (simp split: if_splits)
qed

text \<open>
  Claim C4. \<open>analyzeLink\<close> always returns a result (it never throws). When the API call
  throws or its response has no text, the result is the fallback result, which is
  invalid, of platform \<^verbatim>\<open>Desconocida\<close> and of content type \<^verbatim>\<open>unknown\<close>; the callback of
  the downloader then gives every queue item of that id the status error and the message
  \<^verbatim>\<open>Plataforma no soportada\<close>, and leaves the other items as they are.
\<close>

theorem analyzeLink_never_throws:
  "(\<exists>r. analyzeLink parse ai link = Inr r)
   \<and> (ai link = ApiThrows \<or> ai link = ApiResponse None \<or> ai link = ApiResponse (Some [])
        \<longrightarrow> analyzeLink parse ai link = Inr fallbackResult
          \<and> queue (analysisCallback parse ai (ident, link) s) =
               map (\<lambda>i. if id_item i = ident
                        then i \<lparr> status := Error, errorMsg := Some (js ''Plataforma no soportada''),
                                 result := Some fallbackResult \<rparr>
                        else i) (queue s)
          \<and> (\<forall>item \<in> set (queue (analysisCallback parse ai (ident, link) s)).
                id_item item = ident \<longrightarrow>
                  status item = Error \<and> errorMsg item = Some (js ''Plataforma no soportada'')))
   \<and> \<not> isValid fallbackResult
   \<and> platform fallbackResult = js ''Desconocida''
   \<and> contentType fallbackResult = CUnknown"
proof (intro conjI impI ballI)
  show "\<exists>r. analyzeLink parse ai link = Inr r"
    by (rule analyzeLink_Inr)
next
  assume "ai link = ApiThrows \<or> ai link = ApiResponse None \<or> ai link = ApiResponse (Some [])"
  then show "analyzeLink parse ai link = Inr fallbackResult"
    by (rule analyzeLink_fallback)
next
  assume "ai link = ApiThrows \<or> ai link = ApiResponse None \<or> ai link = ApiResponse (Some [])"
  then have "analyzeLink parse ai link = Inr fallbackResult"
    by (rule analyzeLink_fallback)
  then show "queue (analysisCallback parse ai (ident, link) s) =
               map (\<lambda>i. if id_item i = ident
                        then i \<lparr> status := Error, errorMsg := Some (js ''Plataforma no soportada''),
                                 result := Some fallbackResult \<rparr>
                        else i) (queue s)"
    by (rule analysisCallback_fallback)
next
  fix item
  assume "ai link = ApiThrows \<or> ai link = ApiResponse None \<or> ai link = ApiResponse (Some [])"
    and item: "item \<in> set (queue (analysisCallback parse ai (ident, link) s))" "id_item item = ident"
  then have "analyzeLink parse ai link = Inr fallbackResult"
    by (intro analyzeLink_fallback)
  from analysisCallback_marks [OF this item]
  show "status item = Error" "errorMsg item = Some (js ''Plataforma no soportada'')"
    by simp_all
qed (simp_all add: fallbackResult_def)


theorem analyzeLink_never_throws_witness:
  "(\<lambda>u. ApiThrows) (js ''http://p'') = ApiThrows
   \<and> analyzeLink (\<lambda>t. None) (\<lambda>u. ApiThrows) (js ''http://p'') = Inr fallbackResult
   \<and> map (\<lambda>i. (id_item i, status i, errorMsg i))
        (queue (analysisCallback (\<lambda>t. None) (\<lambda>u. ApiThrows) (js ''a'', js ''http://p'')
          (initial \<lparr> queue := [newBatchItem Video (js ''a'') (js ''http://p''),
                                newBatchItem Video (js ''b'') (js ''http://q'')] \<rparr>)))
       = [(js ''a'', Error, Some (js ''Plataforma no soportada'')), (js ''b'', Analyzing, None)]"
proof -
  let ?s = "initial \<lparr> queue := [newBatchItem Video (js ''a'') (js ''http://p''),
                                newBatchItem Video (js ''b'') (js ''http://q'')] \<rparr>"
  have fails: "(\<lambda>u. ApiThrows) (js ''http://p'') = ApiThrows"
    by simp
  note t = analyzeLink_never_throws [of "\<lambda>t. None" "\<lambda>u. ApiThrows" "js ''http://p''" "js ''a''" ?s]
  from t fails have fb: "analyzeLink (\<lambda>t. None) (\<lambda>u. ApiThrows) (js ''http://p'') = Inr fallbackResult"
    by blast
  from t fails have q: "queue (analysisCallback (\<lambda>t. None) (\<lambda>u. ApiThrows) (js ''a'', js ''http://p'') ?s) =
               map (\<lambda>i. if id_item i = js ''a''
                        then i \<lparr> status := Error, errorMsg := Some (js ''Plataforma no soportada''),
                                 result := Some fallbackResult \<rparr>
                        else i) (queue ?s)"
    by blast
  have "map (\<lambda>i. (id_item i, status i, errorMsg i))
        (queue (analysisCallback (\<lambda>t. None) (\<lambda>u. ApiThrows) (js ''a'', js ''http://p'') ?s))
       = [(js ''a'', Error, Some (js ''Plataforma no soportada'')), (js ''b'', Analyzing, None)]"
    unfolding q by (simp add: newBatchItem_def js_def)
  with fails fb show ?thesis by blast
qed


lemma msgs_distinct: "distinct errorMessages \<and> length errorMessages = 7"
  by (simp add: errorMessages_def msgKey_def msgInvalid_def msgPermission_def msgQuota_def
      msgUnavailable_def msgSafety_def msgGeneric_def js_def)

lemma catchClause_ladder:
  "error (catchClause (Err e) g) =
     Some (if includes_str (messageOf e) (js ''Requested entity was not found'') \<or> statusOf e = Some 404
           then msgKey
           else if statusOf e = Some 400 \<or> includes_str (messageOf e) (js ''INVALID_ARGUMENT'')
           then msgInvalid
           else if statusOf e = Some 403 \<or> includes_str (messageOf e) (js ''PERMISSION_DENIED'')
           then msgPermission
           else if statusOf e = Some 429 \<or> includes_str (messageOf e) (js ''RESOURCE_EXHAUSTED'')
           then msgQuota
           else if statusOf e = Some 503 \<or> includes_str (messageOf e) (js ''UNAVAILABLE'')
           then msgUnavailable
           else if includes_str (messageOf e) (js ''SAFETY'')
           then msgSafety
           else msgGeneric)"
  by (simp add: catchClause_def Let_def)

lemma catchClause_Falsy: "error (catchClause Falsy g) = Some msgGeneric"
  by (simp add: catchClause_def)

lemma catchClause_member: "error (catchClause err g) \<in> Some ` set errorMessages"
proof (cases err)
  case Falsy
  then show ?thesis by (simp add: catchClause_Falsy errorMessages_def)
next
  case (Err e)
  show ?thesis unfolding Err catchClause_ladder by (simp add: errorMessages_def)
qed

lemma catchClause_error_indep: "error (catchClause err g) = error (catchClause err g')"
proof (cases err)
  case Falsy
  show ?thesis unfolding Falsy catchClause_Falsy ..
next
  case (Err e)
  show ?thesis unfolding Err catchClause_ladder ..
qed

lemma handleGenerate_caught:
  assumes "\<not> trimIsEmpty (prompt g)"
  shows "error (handleGenerate (Some (Inl err)) g) = error (catchClause err g)
       \<and> \<not> isGenerating (handleGenerate (Some (Inl err)) g)"
proof -
  have "error (handleGenerate (Some (Inl err)) g)
      = error (catchClause err (g \<lparr> isGenerating := True, error := None, videoUri := None \<rparr>))"
    using assms by (simp add: handleGenerate_def)
  also have "\<dots> = error (catchClause err g)"
    by (rule catchClause_error_indep)
  finally have "error (handleGenerate (Some (Inl err)) g) = error (catchClause err g)" .
  moreover have "\<not> isGenerating (handleGenerate (Some (Inl err)) g)"
    using assms by (simp add: handleGenerate_def)
  ultimately show ?thesis by simp
qed

lemma polling_rethrows:
  "polling key oper answers = Some (Inl err) \<Longrightarrow> Throws err \<in> set answers"
proof (induction key oper answers rule: polling.induct)
  case (1 apiKey oper answers)
  note unfolded = "1.prems" [unfolded polling.simps [of apiKey oper answers]]
  show ?case
  proof (cases "done_op oper")
    case True
    with unfolded show ?thesis
      by (simp split: option.splits if_splits)
  next
    case False
    show ?thesis
    proof (cases answers)
      case Nil
      with False unfolded show ?thesis by simp
    next
      case (Cons a rest)
      show ?thesis
      proof (cases a)
        case (Throws e)
        with False Cons unfolded show ?thesis by simp
      next
        case (Returns oper')
        with False Cons unfolded have "polling apiKey oper' rest = Some (Inl err)"
          by simp
        from "1.IH" [OF False Cons Returns this] Cons show ?thesis by simp
      qed
    qed
  qed
qed

lemma generateVideo_rethrows:
  assumes "generateVideo key answers = Some (Inl err)"
  shows "Throws err \<in> set answers"
proof (cases answers)
  case Nil
  with assms show ?thesis by (simp add: generateVideo_def)
next
  case (Cons a rest)
  show ?thesis
  proof (cases a)
    case (Throws e)
    with Cons assms show ?thesis by (simp add: generateVideo_def)
  next
    case (Returns oper)
    with Cons assms have "polling key oper rest = Some (Inl err)"
      by (simp add: generateVideo_def)
    from polling_rethrows [OF this] Cons show ?thesis by simp
  qed
qed

text \<open>
  Claim C5. Whatever is thrown, the handler shows one of seven different messages. For a
  thrown object the message is chosen by the first case that applies, in this order:
  entity not found or status 404; status 400 or invalid argument; status 403 or
  permission denied; status 429 or resource exhausted; status 503 or unavailable; safety;
  and the generic message when none applies (as for a falsy thrown value). An exception of
  \<open>generateVideo\<close> is one the API threw, and the handler maps it in this way. The message
  that is searched is \<^verbatim>\<open>err.message\<close>, or the empty string when there is none; the status
  that is compared is \<^verbatim>\<open>err.status\<close> unless that is undefined or 0, and then
  \<^verbatim>\<open>err.response.status\<close>.
\<close>

theorem handleGenerate_error_messages:
  "error (catchClause err g) \<in> Some ` set errorMessages
   \<and> distinct errorMessages \<and> length errorMessages = 7
   \<and> error (catchClause Falsy g) = Some msgGeneric
   \<and> (error (catchClause (Err e) g) = Some msgKey \<longleftrightarrow>
        includes_str (messageOf e) (js ''Requested entity was not found'') \<or> statusOf e = Some 404)
   \<and> (error (catchClause (Err e) g) = Some msgInvalid \<longleftrightarrow>
        \<not> (includes_str (messageOf e) (js ''Requested entity was not found'') \<or> statusOf e = Some 404)
        \<and> (statusOf e = Some 400 \<or> includes_str (messageOf e) (js ''INVALID_ARGUMENT'')))
   \<and> (error (catchClause (Err e) g) = Some msgPermission \<longleftrightarrow>
        \<not> (includes_str (messageOf e) (js ''Requested entity was not found'') \<or> statusOf e = Some 404)
        \<and> \<not> (statusOf e = Some 400 \<or> includes_str (messageOf e) (js ''INVALID_ARGUMENT''))
        \<and> (statusOf e = Some 403 \<or> includes_str (messageOf e) (js ''PERMISSION_DENIED'')))
   \<and> (error (catchClause (Err e) g) = Some msgQuota \<longleftrightarrow>
        \<not> (includes_str (messageOf e) (js ''Requested entity was not found'') \<or> statusOf e = Some 404)
        \<and> \<not> (statusOf e = Some 400 \<or> includes_str (messageOf e) (js ''INVALID_ARGUMENT''))
        \<and> \<not> (statusOf e = Some 403 \<or> includes_str (messageOf e) (js ''PERMISSION_DENIED''))
        \<and> (statusOf e = Some 429 \<or> includes_str (messageOf e) (js ''RESOURCE_EXHAUSTED'')))
   \<and> (error (catchClause (Err e) g) = Some msgUnavailable \<longleftrightarrow>
        \<not> (includes_str (messageOf e) (js ''Requested entity was not found'') \<or> statusOf e = Some 404)
        \<and> \<not> (statusOf e = Some 400 \<or> includes_str (messageOf e) (js ''INVALID_ARGUMENT''))
        \<and> \<not> (statusOf e = Some 403 \<or> includes_str (messageOf e) (js ''PERMISSION_DENIED''))
        \<and> \<not> (statusOf e = Some 429 \<or> includes_str (messageOf e) (js ''RESOURCE_EXHAUSTED''))
        \<and> (statusOf e = Some 503 \<or> includes_str (messageOf e) (js ''UNAVAILABLE'')))
   \<and> (error (catchClause (Err e) g) = Some msgSafety \<longleftrightarrow>
        \<not> (includes_str (messageOf e) (js ''Requested entity was not found'') \<or> statusOf e = Some 404)
        \<and> \<not> (statusOf e = Some 400 \<or> includes_str (messageOf e) (js ''INVALID_ARGUMENT''))
        \<and> \<not> (statusOf e = Some 403 \<or> includes_str (messageOf e) (js ''PERMISSION_DENIED''))
        \<and> \<not> (statusOf e = Some 429 \<or> includes_str (messageOf e) (js ''RESOURCE_EXHAUSTED''))
        \<and> \<not> (statusOf e = Some 503 \<or> includes_str (messageOf e) (js ''UNAVAILABLE''))
        \<and> includes_str (messageOf e) (js ''SAFETY''))
   \<and> (error (catchClause (Err e) g) = Some msgGeneric \<longleftrightarrow>
        \<not> (includes_str (messageOf e) (js ''Requested entity was not found'') \<or> statusOf e = Some 404)
        \<and> \<not> (statusOf e = Some 400 \<or> includes_str (messageOf e) (js ''INVALID_ARGUMENT''))
        \<and> \<not> (statusOf e = Some 403 \<or> includes_str (messageOf e) (js ''PERMISSION_DENIED''))
        \<and> \<not> (statusOf e = Some 429 \<or> includes_str (messageOf e) (js ''RESOURCE_EXHAUSTED''))
        \<and> \<not> (statusOf e = Some 503 \<or> includes_str (messageOf e) (js ''UNAVAILABLE''))
        \<and> \<not> includes_str (messageOf e) (js ''SAFETY''))
   \<and> (\<not> trimIsEmpty (prompt g) \<and> generateVideo key answers = Some (Inl err) \<longrightarrow>
        Throws err \<in> set answers
        \<and> error (handleGenerate (generateVideo key answers) g) = error (catchClause err g)
        \<and> \<not> isGenerating (handleGenerate (generateVideo key answers) g))
   \<and> (messageOf e = msg \<longleftrightarrow> message e = Some msg \<or> (message e = None \<and> msg = []))
   \<and> (statusOf e = Some code \<longleftrightarrow>
        (status_err e = Some code \<and> code \<noteq> 0)
        \<or> ((status_err e = None \<or> status_err e = Some 0) \<and> response_status e = Some code))"
proof -
  define c1 where "c1 \<longleftrightarrow> includes_str (messageOf e) (js ''Requested entity was not found'') \<or> statusOf e = Some 404"
  define c2 where "c2 \<longleftrightarrow> statusOf e = Some 400 \<or> includes_str (messageOf e) (js ''INVALID_ARGUMENT'')"
  define c3 where "c3 \<longleftrightarrow> statusOf e = Some 403 \<or> includes_str (messageOf e) (js ''PERMISSION_DENIED'')"
  define c4 where "c4 \<longleftrightarrow> statusOf e = Some 429 \<or> includes_str (messageOf e) (js ''RESOURCE_EXHAUSTED'')"
  define c5 where "c5 \<longleftrightarrow> statusOf e = Some 503 \<or> includes_str (messageOf e) (js ''UNAVAILABLE'')"
  define c6 where "c6 \<longleftrightarrow> includes_str (messageOf e) (js ''SAFETY'')"
  define m where "m = error (catchClause (Err e) g)"
  have m: "m = Some (if c1 then msgKey else if c2 then msgInvalid else if c3 then msgPermission
              else if c4 then msgQuota else if c5 then msgUnavailable else if c6 then msgSafety
              else msgGeneric)"
    unfolding m_def c1_def c2_def c3_def c4_def c5_def c6_def by (rule catchClause_ladder)
  have d: "distinct [msgKey, msgInvalid, msgPermission, msgQuota, msgUnavailable, msgSafety, msgGeneric]"
    using msgs_distinct by (simp only: errorMessages_def)
  have k1: "m = Some msgKey \<longleftrightarrow> c1"
    and k2: "m = Some msgInvalid \<longleftrightarrow> \<not> c1 \<and> c2"
    and k3: "m = Some msgPermission \<longleftrightarrow> \<not> c1 \<and> \<not> c2 \<and> c3"
    and k4: "m = Some msgQuota \<longleftrightarrow> \<not> c1 \<and> \<not> c2 \<and> \<not> c3 \<and> c4"
    and k5: "m = Some msgUnavailable \<longleftrightarrow> \<not> c1 \<and> \<not> c2 \<and> \<not> c3 \<and> \<not> c4 \<and> c5"
    and k6: "m = Some msgSafety \<longleftrightarrow> \<not> c1 \<and> \<not> c2 \<and> \<not> c3 \<and> \<not> c4 \<and> \<not> c5 \<and> c6"
    and k7: "m = Some msgGeneric \<longleftrightarrow> \<not> c1 \<and> \<not> c2 \<and> \<not> c3 \<and> \<not> c4 \<and> \<not> c5 \<and> \<not> c6"
    using d unfolding m by auto
  have caught: "Throws err \<in> set answers
        \<and> error (handleGenerate (generateVideo key answers) g) = error (catchClause err g)
        \<and> \<not> isGenerating (handleGenerate (generateVideo key answers) g)"
    if "\<not> trimIsEmpty (prompt g) \<and> generateVideo key answers = Some (Inl err)"
    using that handleGenerate_caught [of g err] generateVideo_rethrows [of key answers err]
    by simp
  have pin_message: "messageOf e = msg \<longleftrightarrow> message e = Some msg \<or> (message e = None \<and> msg = [])"
    by (cases "message e") (auto simp: messageOf_def)
  have pin_status: "statusOf e = Some code \<longleftrightarrow>
        (status_err e = Some code \<and> code \<noteq> 0)
        \<or> ((status_err e = None \<or> status_err e = Some 0) \<and> response_status e = Some code)"
    by (cases "status_err e") (auto simp: statusOf_def)
  show ?thesis
    using catchClause_member [of err g] msgs_distinct catchClause_Falsy [of g]
      k1 k2 k3 k4 k5 k6 k7 caught pin_message pin_status
    unfolding m_def c1_def c2_def c3_def c4_def c5_def c6_def
    by blast
qed

text \<open>
  The handler on a polling call that throws a quota error identified by its message, and
  the catch clause on errors identified by their status alone: 404 in \<^verbatim>\<open>status\<close>, 400 in
  \<^verbatim>\<open>response.status\<close>, 403 in \<^verbatim>\<open>response.status\<close> under a zero \<^verbatim>\<open>status\<close>, 429 in
  \<^verbatim>\<open>status\<close> over a 503 in \<^verbatim>\<open>response.status\<close>, 503 in \<^verbatim>\<open>response.status\<close>, a safety
  message with status 500, and status 500 alone.
\<close>

theorem handleGenerate_error_messages_witness:
  "\<not> trimIsEmpty (prompt \<lparr> prompt = js ''a cat'', isGenerating = False, videoUri = None,
        error = None, hasKey = True, resolution = js ''720p'', aspectRatio = js ''16:9'' \<rparr>)
   \<and> generateVideo (js ''K'')
        [Returns \<lparr> done_op = False, uri_op = None \<rparr>,
         Throws (Err \<lparr> message = Some (js ''429 RESOURCE_EXHAUSTED''), status_err = None,
                       response_status = None \<rparr>)]
       = Some (Inl (Err \<lparr> message = Some (js ''429 RESOURCE_EXHAUSTED''), status_err = None,
                       response_status = None \<rparr>))
   \<and> error (handleGenerate (generateVideo (js ''K'')
        [Returns \<lparr> done_op = False, uri_op = None \<rparr>,
         Throws (Err \<lparr> message = Some (js ''429 RESOURCE_EXHAUSTED''), status_err = None,
                       response_status = None \<rparr>)])
        \<lparr> prompt = js ''a cat'', isGenerating = False, videoUri = None,
          error = None, hasKey = True, resolution = js ''720p'', aspectRatio = js ''16:9'' \<rparr>)
       = Some msgQuota
   \<and> error (catchClause (Err \<lparr> message = None, status_err = Some 404, response_status = None \<rparr>)
        \<lparr> prompt = js ''a cat'', isGenerating = False, videoUri = None,
          error = None, hasKey = True, resolution = js ''720p'', aspectRatio = js ''16:9'' \<rparr>)
       = Some msgKey
   \<and> error (catchClause (Err \<lparr> message = None, status_err = None, response_status = Some 400 \<rparr>)
        \<lparr> prompt = js ''a cat'', isGenerating = False, videoUri = None,
          error = None, hasKey = True, resolution = js ''720p'', aspectRatio = js ''16:9'' \<rparr>)
       = Some msgInvalid
   \<and> error (catchClause (Err \<lparr> message = None, status_err = Some 0, response_status = Some 403 \<rparr>)
        \<lparr> prompt = js ''a cat'', isGenerating = False, videoUri = None,
          error = None, hasKey = True, resolution = js ''720p'', aspectRatio = js ''16:9'' \<rparr>)
       = Some msgPermission
   \<and> error (catchClause (Err \<lparr> message = None, status_err = Some 429, response_status = Some 503 \<rparr>)
        \<lparr> prompt = js ''a cat'', isGenerating = False, videoUri = None,
          error = None, hasKey = True, resolution = js ''720p'', aspectRatio = js ''16:9'' \<rparr>)
       = Some msgQuota
   \<and> error (catchClause (Err \<lparr> message = None, status_err = None, response_status = Some 503 \<rparr>)
        \<lparr> prompt = js ''a cat'', isGenerating = False, videoUri = None,
          error = None, hasKey = True, resolution = js ''720p'', aspectRatio = js ''16:9'' \<rparr>)
       = Some msgUnavailable
   \<and> error (catchClause (Err \<lparr> message = Some (js ''blocked: SAFETY''), status_err = Some 500,
                                response_status = None \<rparr>)
        \<lparr> prompt = js ''a cat'', isGenerating = False, videoUri = None,
          error = None, hasKey = True, resolution = js ''720p'', aspectRatio = js ''16:9'' \<rparr>)
       = Some msgSafety
   \<and> error (catchClause (Err \<lparr> message = None, status_err = Some 500, response_status = None \<rparr>)
        \<lparr> prompt = js ''a cat'', isGenerating = False, videoUri = None,
          error = None, hasKey = True, resolution = js ''720p'', aspectRatio = js ''16:9'' \<rparr>)
       = Some msgGeneric"
proof -
  let ?g = "\<lparr> prompt = js ''a cat'', isGenerating = False, videoUri = None,
        error = None, hasKey = True, resolution = js ''720p'', aspectRatio = js ''16:9'' \<rparr>"
  let ?e = "\<lparr> message = Some (js ''429 RESOURCE_EXHAUSTED''), status_err = None,
                       response_status = None \<rparr>"
  let ?answers = "[Returns \<lparr> done_op = False, uri_op = None \<rparr>, Throws (Err ?e)]"
  have a: "\<not> trimIsEmpty (prompt ?g)"
    by (simp add: trimIsEmpty_def isSpace_def js_def)
  have b: "generateVideo (js ''K'') ?answers = Some (Inl (Err ?e))"
    by (simp add: generateVideo_def polling.simps)
  have all: "(\<not> trimIsEmpty (prompt ?g) \<and> generateVideo (js ''K'') ?answers = Some (Inl (Err ?e)) \<longrightarrow>
          Throws (Err ?e) \<in> set ?answers
          \<and> error (handleGenerate (generateVideo (js ''K'') ?answers) ?g) = error (catchClause (Err ?e) ?g)
          \<and> \<not> isGenerating (handleGenerate (generateVideo (js ''K'') ?answers) ?g))"
    using handleGenerate_error_messages
      [where err = "Err ?e" and g = ?g and e = ?e and key = "js ''K''" and answers = ?answers
         and msg = "[]" and code = 0]
    by (elim conjE) assumption
  with a b have c: "error (handleGenerate (generateVideo (js ''K'') ?answers) ?g)
      = error (catchClause (Err ?e) ?g)"
    by simp
  have ladder:
    "(error (catchClause (Err x) ?g) = Some msgKey \<longleftrightarrow>
        includes_str (messageOf x) (js ''Requested entity was not found'') \<or> statusOf x = Some 404)
   \<and> (error (catchClause (Err x) ?g) = Some msgInvalid \<longleftrightarrow>
        \<not> (includes_str (messageOf x) (js ''Requested entity was not found'') \<or> statusOf x = Some 404)
        \<and> (statusOf x = Some 400 \<or> includes_str (messageOf x) (js ''INVALID_ARGUMENT'')))
   \<and> (error (catchClause (Err x) ?g) = Some msgPermission \<longleftrightarrow>
        \<not> (includes_str (messageOf x) (js ''Requested entity was not found'') \<or> statusOf x = Some 404)
        \<and> \<not> (statusOf x = Some 400 \<or> includes_str (messageOf x) (js ''INVALID_ARGUMENT''))
        \<and> (statusOf x = Some 403 \<or> includes_str (messageOf x) (js ''PERMISSION_DENIED'')))
   \<and> (error (catchClause (Err x) ?g) = Some msgQuota \<longleftrightarrow>
        \<not> (includes_str (messageOf x) (js ''Requested entity was not found'') \<or> statusOf x = Some 404)
        \<and> \<not> (statusOf x = Some 400 \<or> includes_str (messageOf x) (js ''INVALID_ARGUMENT''))
        \<and> \<not> (statusOf x = Some 403 \<or> includes_str (messageOf x) (js ''PERMISSION_DENIED''))
        \<and> (statusOf x = Some 429 \<or> includes_str (messageOf x) (js ''RESOURCE_EXHAUSTED'')))
   \<and> (error (catchClause (Err x) ?g) = Some msgUnavailable \<longleftrightarrow>
        \<not> (includes_str (messageOf x) (js ''Requested entity was not found'') \<or> statusOf x = Some 404)
        \<and> \<not> (statusOf x = Some 400 \<or> includes_str (messageOf x) (js ''INVALID_ARGUMENT''))
        \<and> \<not> (statusOf x = Some 403 \<or> includes_str (messageOf x) (js ''PERMISSION_DENIED''))
        \<and> \<not> (statusOf x = Some 429 \<or> includes_str (messageOf x) (js ''RESOURCE_EXHAUSTED''))
        \<and> (statusOf x = Some 503 \<or> includes_str (messageOf x) (js ''UNAVAILABLE'')))
   \<and> (error (catchClause (Err x) ?g) = Some msgSafety \<longleftrightarrow>
        \<not> (includes_str (messageOf x) (js ''Requested entity was not found'') \<or> statusOf x = Some 404)
        \<and> \<not> (statusOf x = Some 400 \<or> includes_str (messageOf x) (js ''INVALID_ARGUMENT''))
        \<and> \<not> (statusOf x = Some 403 \<or> includes_str (messageOf x) (js ''PERMISSION_DENIED''))
        \<and> \<not> (statusOf x = Some 429 \<or> includes_str (messageOf x) (js ''RESOURCE_EXHAUSTED''))
        \<and> \<not> (statusOf x = Some 503 \<or> includes_str (messageOf x) (js ''UNAVAILABLE''))
        \<and> includes_str (messageOf x) (js ''SAFETY''))
   \<and> (error (catchClause (Err x) ?g) = Some msgGeneric \<longleftrightarrow>
        \<not> (includes_str (messageOf x) (js ''Requested entity was not found'') \<or> statusOf x = Some 404)
        \<and> \<not> (statusOf x = Some 400 \<or> includes_str (messageOf x) (js ''INVALID_ARGUMENT''))
        \<and> \<not> (statusOf x = Some 403 \<or> includes_str (messageOf x) (js ''PERMISSION_DENIED''))
        \<and> \<not> (statusOf x = Some 429 \<or> includes_str (messageOf x) (js ''RESOURCE_EXHAUSTED''))
        \<and> \<not> (statusOf x = Some 503 \<or> includes_str (messageOf x) (js ''UNAVAILABLE''))
        \<and> \<not> includes_str (messageOf x) (js ''SAFETY''))"
    for x
    using handleGenerate_error_messages
      [where err = Falsy and g = ?g and e = x and key = "[]" and answers = "[]"
         and msg = "[]" and code = 0]
    by (elim conjE) (intro conjI; assumption)
  have pins: "messageOf x = (case message x of None \<Rightarrow> [] | Some t \<Rightarrow> t)
      \<and> (\<forall>n. statusOf x = Some n \<longleftrightarrow>
            (status_err x = Some n \<and> n \<noteq> 0)
            \<or> ((status_err x = None \<or> status_err x = Some 0) \<and> response_status x = Some n))"
    for x
  proof (intro conjI allI)
    show "messageOf x = (case message x of None \<Rightarrow> [] | Some t \<Rightarrow> t)"
      using handleGenerate_error_messages
        [where err = Falsy and g = ?g and e = x and key = "[]" and answers = "[]"
           and msg = "case message x of None \<Rightarrow> [] | Some t \<Rightarrow> t" and code = 0]
      by (cases "message x") auto
  next
    fix n
    show "statusOf x = Some n \<longleftrightarrow>
            (status_err x = Some n \<and> n \<noteq> 0)
            \<or> ((status_err x = None \<or> status_err x = Some 0) \<and> response_status x = Some n)"
      using handleGenerate_error_messages
        [where err = Falsy and g = ?g and e = x and key = "[]" and answers = "[]"
           and msg = "[]" and code = n]
      by (elim conjE) assumption
  qed
  have q: "error (catchClause (Err ?e) ?g) = Some msgQuota"
    using ladder [of ?e] pins [of ?e] by (simp add: js_def)
  have e1: "error (catchClause (Err \<lparr> message = None, status_err = Some 404, response_status = None \<rparr>) ?g)
      = Some msgKey"
    using ladder [of "\<lparr> message = None, status_err = Some 404, response_status = None \<rparr>"]
      pins [of "\<lparr> message = None, status_err = Some 404, response_status = None \<rparr>"]
    by (simp add: js_def)
  have e2: "error (catchClause (Err \<lparr> message = None, status_err = None, response_status = Some 400 \<rparr>) ?g)
      = Some msgInvalid"
    using ladder [of "\<lparr> message = None, status_err = None, response_status = Some 400 \<rparr>"]
      pins [of "\<lparr> message = None, status_err = None, response_status = Some 400 \<rparr>"]
    by (simp add: js_def)
  have e3: "error (catchClause (Err \<lparr> message = None, status_err = Some 0, response_status = Some 403 \<rparr>) ?g)
      = Some msgPermission"
    using ladder [of "\<lparr> message = None, status_err = Some 0, response_status = Some 403 \<rparr>"]
      pins [of "\<lparr> message = None, status_err = Some 0, response_status = Some 403 \<rparr>"]
    by (simp add: js_def)
  have e4: "error (catchClause (Err \<lparr> message = None, status_err = Some 429, response_status = Some 503 \<rparr>) ?g)
      = Some msgQuota"
    using ladder [of "\<lparr> message = None, status_err = Some 429, response_status = Some 503 \<rparr>"]
      pins [of "\<lparr> message = None, status_err = Some 429, response_status = Some 503 \<rparr>"]
    by (simp add: js_def)
  have e5: "error (catchClause (Err \<lparr> message = None, status_err = None, response_status = Some 503 \<rparr>) ?g)
      = Some msgUnavailable"
    using ladder [of "\<lparr> message = None, status_err = None, response_status = Some 503 \<rparr>"]
      pins [of "\<lparr> message = None, status_err = None, response_status = Some 503 \<rparr>"]
    by (simp add: js_def)
  have e6: "error (catchClause (Err \<lparr> message = Some (js ''blocked: SAFETY''), status_err = Some 500,
                                response_status = None \<rparr>) ?g)
      = Some msgSafety"
    using ladder [of "\<lparr> message = Some (js ''blocked: SAFETY''), status_err = Some 500,
                                response_status = None \<rparr>"]
      pins [of "\<lparr> message = Some (js ''blocked: SAFETY''), status_err = Some 500,
                                response_status = None \<rparr>"]
    by (simp add: js_def)
  have e7: "error (catchClause (Err \<lparr> message = None, status_err = Some 500, response_status = None \<rparr>) ?g)
      = Some msgGeneric"
    using ladder [of "\<lparr> message = None, status_err = Some 500, response_status = None \<rparr>"]
      pins [of "\<lparr> message = None, status_err = Some 500, response_status = None \<rparr>"]
    by (simp add: js_def)
  from c q have "error (handleGenerate (generateVideo (js ''K'') ?answers) ?g) = Some msgQuota"
    by (rule trans)
  with a b e1 e2 e3 e4 e5 e6 e7 show ?thesis by (intro conjI)
qed


section \<open>Properties of the reachable states\<close>

subsection \<open>What each handler does to the queue\<close>

lemma queue_updateItem:
  "queue (updateItem ident f s) = map (\<lambda>item. if id_item item = ident then f item else item) (queue s)"
  by (simp add: updateItem_def)

lemma updateItem_origin:
  assumes "x \<in> set (queue (updateItem ident f s))"
  shows "(x \<in> set (queue s) \<and> id_item x \<noteq> ident)
       \<or> (\<exists>y \<in> set (queue s). id_item y = ident \<and> x = f y)"
proof -
  from assms obtain y where y: "y \<in> set (queue s)" "x = (if id_item y = ident then f y else y)"
    unfolding queue_updateItem set_map by (rule imageE)
  show ?thesis
  proof (cases "id_item y = ident")
    case True
    with y show ?thesis by auto
  next
    case False
    with y have "x = y" by simp
    with y(1) False show ?thesis by simp
  qed
qed

lemma queue_mount: "queue (mount stored) = []"
  by (cases stored) (simp_all add: mount_def initial_def)

lemma queue_handleInputChange: "queue (handleInputChange v s) = queue s"
  by (simp add: handleInputChange_def)

lemma queue_handlePaste: "queue (handlePaste clip s) = queue s"
  by (cases clip) (simp_all add: handlePaste_def)

lemma queue_clearHistory: "queue (clearHistory s) = queue s"
  by (simp add: clearHistory_def)

lemma queue_addToHistory: "queue (addToHistory st r link s) = queue s"
  by (simp add: addToHistory_def Let_def)

lemma queue_handleAnalyzeBatch:
  "queue (handleAnalyzeBatch uuid s) = queue s
   \<or> queue (handleAnalyzeBatch uuid s) =
       filter (\<lambda>i. url i \<notin> set (map url (queue s)))
         (newItemsOf uuid (downloadType s) (Array_from_Set (extractUrls (inputText s))))
       @ queue s"
  by (simp add: handleAnalyzeBatch_def Let_def)

lemma newItemsOf_origin:
  assumes "x \<in> set (newItemsOf uuid t us)"
  shows "\<exists>k u. x = newBatchItem t (uuid k) u"
  using assms by (auto simp: newItemsOf_def)

lemma handleAnalyzeBatch_origin:
  assumes "x \<in> set (queue (handleAnalyzeBatch uuid s))"
  shows "x \<in> set (queue s) \<or> (\<exists>k u. x = newBatchItem (downloadType s) (uuid k) u)"
proof -
  let ?new = "newItemsOf uuid (downloadType s) (Array_from_Set (extractUrls (inputText s)))"
  from assms queue_handleAnalyzeBatch [of uuid s]
  have "x \<in> set (queue s) \<or> x \<in> set ?new"
    by auto
  with newItemsOf_origin [of x uuid "downloadType s"] show ?thesis
    by blast
qed

lemma queue_analysisCallback:
  "\<exists>f \<in> {\<lambda>i. i \<lparr> status := Ready, result := Some (projr (analyzeLink parse ai (snd p))) \<rparr>,
           \<lambda>i. i \<lparr> status := Error, errorMsg := Some (js ''Plataforma no soportada''),
                    result := Some (projr (analyzeLink parse ai (snd p))) \<rparr>}.
     queue (analysisCallback parse ai p s) = queue (updateItem (fst p) f s)"
proof -
  obtain r where r: "analyzeLink parse ai (snd p) = Inr r"
    using analyzeLink_Inr by blast
  show ?thesis
    by (cases "isValid r")
       (simp_all add: analysisCallback_def analysisSettled_def r queue_updateItem)
qed


lemma queue_expandPlaylist:
  "queue (expandPlaylist uuid draw ident plat s) = queue s
   \<or> (\<exists>k < length (queue s).
        queue (expandPlaylist uuid draw ident plat s) =
          take k (queue s) @ subItems uuid (downloadType s) (queue s ! k) plat (draw + 3)
          @ drop (Suc k) (queue s))"
proof (cases "ident \<in> id_item ` set (queue s)")
  case False
  then show ?thesis by (simp add: expandPlaylist_absent)
next
  case True
  from expandPlaylist_present [OF True, of uuid draw plat]
  obtain k where "k < length (queue s)"
    "expandPlaylist uuid draw ident plat s =
       s \<lparr> queue := take k (queue s)
             @ subItems uuid (downloadType s) (queue s ! k) plat (draw + 3)
             @ drop (Suc k) (queue s) \<rparr>"
    by blast
  then have "k < length (queue s) \<and> queue (expandPlaylist uuid draw ident plat s) =
          take k (queue s) @ subItems uuid (downloadType s) (queue s ! k) plat (draw + 3)
          @ drop (Suc k) (queue s)"
    by simp
  then show ?thesis by blast
qed

lemma expandPlaylist_origin:
  assumes "x \<in> set (queue (expandPlaylist uuid draw ident plat s))"
  shows "x \<in> set (queue s) \<or> (\<exists>item. x \<in> set (subItems uuid (downloadType s) item plat (draw + 3)))"
  using assms queue_expandPlaylist [of uuid draw ident plat s]
  by (auto dest: in_set_takeD in_set_dropD)

lemma queue_removeItem:
  "queue (removeItem ident s) = filter (\<lambda>i. id_item i \<noteq> ident) (queue s)"
  by (cases "intervalsRef s ident") (simp_all add: removeItem_def clearInterval_def)

lemma queue_chooseDownloadType:
  "queue (chooseDownloadType t s) =
     map (\<lambda>i. if status i = Ready then i \<lparr> type_item := t \<rparr> else i) (queue s)"
  by (simp add: chooseDownloadType_def)

lemma chooseDownloadType_origin:
  assumes "x \<in> set (queue (chooseDownloadType t s))"
  shows "\<exists>y \<in> set (queue s). x = y \<or> x = y \<lparr> type_item := t \<rparr>"
proof -
  from assms obtain y where y: "y \<in> set (queue s)"
      "x = (if status y = Ready then y \<lparr> type_item := t \<rparr> else y)"
    unfolding queue_chooseDownloadType set_map by (rule imageE)
  then show ?thesis by (cases "status y = Ready") auto
qed

lemma queue_clearInterval: "queue (clearInterval h s) = queue s"
  by (simp add: clearInterval_def)

lemma queue_startDownload:
  "queue (startDownload st h ident snap s) = queue s
   \<or> queue (startDownload st h ident snap s) =
       queue (updateItem ident (\<lambda>i. i \<lparr> status := Downloading, progress := 0 \<rparr>) s)"
proof (cases "find (\<lambda>q. id_item q = ident) snap")
  case None
  then show ?thesis by (simp add: startDownload_def)
next
  case (Some item)
  show ?thesis
  proof (cases "status item = Ready")
    case False
    with Some show ?thesis by (simp add: startDownload_def)
  next
    case True
    define s1 where "s1 = (case result item of
                        None \<Rightarrow> s
                      | Some r \<Rightarrow>
                          if \<not> includes_str (url item) (js ''&index='')
                          then addToHistory st r (url item) s else s)"
    define s2 where "s2 = updateItem ident (\<lambda>i. i \<lparr> status := Downloading, progress := 0 \<rparr>) s1"
    define s3 where "s3 = (case intervalsRef s2 ident of
                        None \<Rightarrow> s2
                      | Some old \<Rightarrow> clearInterval old s2)"
    have q1: "queue s1 = queue s"
      unfolding s1_def by (simp add: queue_addToHistory split: option.split)
    have q2: "queue s2 = queue (updateItem ident (\<lambda>i. i \<lparr> status := Downloading, progress := 0 \<rparr>) s)"
      unfolding s2_def queue_updateItem q1 ..
    have q3: "queue s3 = queue s2"
      unfolding s3_def by (simp add: queue_clearInterval split: option.split)
    have "startDownload st h ident snap s =
            s3 \<lparr> timers := (timers s3)
                       (h \<mapsto> \<lparr> itemId = ident, acc = 0, isAudio = (type_item item = Audio) \<rparr>),
                    intervalsRef := (intervalsRef s3)(ident \<mapsto> h) \<rparr>"
      using Some True unfolding s3_def s2_def s1_def by (simp add: startDownload_def Let_def)
    then have "queue (startDownload st h ident snap s) = queue s3"
      by simp
    with q2 q3 show ?thesis by simp
  qed
qed

lemma queue_tick:
  "queue (tick increment speedVal h s) = queue s
   \<or> (\<exists>t. timers s h = Some t \<and> 100 \<le> acc t + increment
          \<and> queue (tick increment speedVal h s) =
              queue (updateItem (itemId t)
                (\<lambda>i. i \<lparr> status := Completed, progress := 100,
                         phase := js ''Guardado'', timeLeft := js ''0s'' \<rparr>) s))
   \<or> (\<exists>t. timers s h = Some t \<and> acc t + increment < 100
          \<and> queue (tick increment speedVal h s) =
              queue (updateItem (itemId t)
                (\<lambda>i. i \<lparr> progress := min 100 (Math_round (acc t + increment)),
                         phase := phaseOf (isAudio t) (acc t + increment),
                         speed := speedVal @ js '' MB/s'' \<rparr>) s))"
proof (cases "timers s h")
  case None
  then show ?thesis by (simp add: tick_def)
next
  case (Some t)
  show ?thesis
  proof (cases "100 \<le> acc t + increment")
    case True
    have "queue (tick increment speedVal h s) =
              queue (updateItem (itemId t)
                (\<lambda>i. i \<lparr> status := Completed, progress := 100,
                         phase := js ''Guardado'', timeLeft := js ''0s'' \<rparr>) s)"
      using Some True
      by (simp add: tick_def Let_def queue_updateItem queue_clearInterval split: option.split)
    with Some True show ?thesis by blast
  next
    case False
    have "queue (tick increment speedVal h s) =
              queue (updateItem (itemId t)
                (\<lambda>i. i \<lparr> progress := min 100 (Math_round (acc t + increment)),
                         phase := phaseOf (isAudio t) (acc t + increment),
                         speed := speedVal @ js '' MB/s'' \<rparr>) s)"
      using Some False by (simp add: tick_def Let_def queue_updateItem)
    with Some False show ?thesis by auto
  qed
qed

lemma tick_origin:
  assumes "x \<in> set (queue (tick increment speedVal h s))"
  shows "x \<in> set (queue s)
       \<or> (\<exists>t y. timers s h = Some t \<and> y \<in> set (queue s) \<and> id_item y = itemId t
              \<and> 100 \<le> acc t + increment
              \<and> x = y \<lparr> status := Completed, progress := 100,
                         phase := js ''Guardado'', timeLeft := js ''0s'' \<rparr>)
       \<or> (\<exists>t y. timers s h = Some t \<and> y \<in> set (queue s) \<and> id_item y = itemId t
              \<and> acc t + increment < 100
              \<and> x = y \<lparr> progress := min 100 (Math_round (acc t + increment)),
                         phase := phaseOf (isAudio t) (acc t + increment),
                         speed := speedVal @ js '' MB/s'' \<rparr>)"
proof -
  from queue_tick [of increment speedVal h s] show ?thesis
  proof (elim disjE exE conjE)
    assume "queue (tick increment speedVal h s) = queue s"
    with assms show ?thesis by simp
  next
    fix t
    assume t: "timers s h = Some t" "100 \<le> acc t + increment"
      and q: "queue (tick increment speedVal h s) =
              queue (updateItem (itemId t)
                (\<lambda>i. i \<lparr> status := Completed, progress := 100,
                         phase := js ''Guardado'', timeLeft := js ''0s'' \<rparr>) s)"
    from assms have "x \<in> set (queue (updateItem (itemId t)
                (\<lambda>i. i \<lparr> status := Completed, progress := 100,
                         phase := js ''Guardado'', timeLeft := js ''0s'' \<rparr>) s))"
      by (simp only: q)
    from updateItem_origin [OF this] t show ?thesis by blast
  next
    fix t
    assume t: "timers s h = Some t" "acc t + increment < 100"
      and q: "queue (tick increment speedVal h s) =
              queue (updateItem (itemId t)
                (\<lambda>i. i \<lparr> progress := min 100 (Math_round (acc t + increment)),
                         phase := phaseOf (isAudio t) (acc t + increment),
                         speed := speedVal @ js '' MB/s'' \<rparr>) s)"
    from assms have "x \<in> set (queue (updateItem (itemId t)
                (\<lambda>i. i \<lparr> progress := min 100 (Math_round (acc t + increment)),
                         phase := phaseOf (isAudio t) (acc t + increment),
                         speed := speedVal @ js '' MB/s'' \<rparr>) s))"
      by (simp only: q)
    from updateItem_origin [OF this] t show ?thesis by blast
  qed
qed

lemma startDownload_origin:
  assumes "x \<in> set (queue (startDownload st h ident snap s))"
  shows "x \<in> set (queue s)
       \<or> (\<exists>y \<in> set (queue s). id_item y = ident \<and> x = y \<lparr> status := Downloading, progress := 0 \<rparr>)"
proof -
  from queue_startDownload [of st h ident snap s] show ?thesis
  proof
    assume "queue (startDownload st h ident snap s) = queue s"
    with assms show ?thesis by simp
  next
    assume q: "queue (startDownload st h ident snap s) =
       queue (updateItem ident (\<lambda>i. i \<lparr> status := Downloading, progress := 0 \<rparr>) s)"
    from assms have "x \<in> set (queue (updateItem ident (\<lambda>i. i \<lparr> status := Downloading, progress := 0 \<rparr>) s))"
      by (simp only: q)
    from updateItem_origin [OF this] show ?thesis by blast
  qed
qed

lemma queue_startDownloadCall: "queue (startDownloadCall ident s) = queue s"
  by (simp add: startDownloadCall_def)

lemma queue_handleDownloadAll: "queue (handleDownloadAll s) = queue s"
  by (simp add: handleDownloadAll_def)

lemma startDownloadRun_origin:
  assumes "x \<in> set (queue (startDownloadRun st h c s))"
  shows "x \<in> set (queue s)
       \<or> (\<exists>y \<in> set (queue s). id_item y = fst c \<and> x = y \<lparr> status := Downloading, progress := 0 \<rparr>)"
  using startDownload_origin [of x st h "fst c" "snd c" "s \<lparr> scheduled := remove1 c (scheduled s) \<rparr>"]
    assms
  by (simp add: startDownloadRun_def)

subsection \<open>The statuses that occur\<close>

lemma reachable_status:
  "reachable s \<Longrightarrow> item \<in> set (queue s) \<Longrightarrow> status item \<noteq> Idle"
proof (induction arbitrary: item rule: reachable.induct)
  case (r_mount stored)
  then show ?case by (simp add: queue_mount)
next
  case (r_input s v)
  then show ?case by (simp add: queue_handleInputChange)
next
  case (r_paste s clip)
  then show ?case by (simp add: queue_handlePaste)
next
  case (r_analyze s uuid)
  from handleAnalyzeBatch_origin [OF r_analyze.prems] r_analyze.IH
  show ?case by (auto simp: newBatchItem_def)
next
  case (r_settled s p parse ai)
  from queue_analysisCallback [of parse ai p s] obtain f where
    f: "f = (\<lambda>i. i \<lparr> status := Ready, result := Some (projr (analyzeLink parse ai (snd p))) \<rparr>)
      \<or> f = (\<lambda>i. i \<lparr> status := Error, errorMsg := Some (js ''Plataforma no soportada''),
                    result := Some (projr (analyzeLink parse ai (snd p))) \<rparr>)"
    and q: "queue (analysisCallback parse ai p s) = queue (updateItem (fst p) f s)"
    by blast
  from r_settled.prems have "item \<in> set (queue (updateItem (fst p) f s))"
    by (simp only: q)
  from updateItem_origin [OF this] consider
      "item \<in> set (queue s)" | y where "y \<in> set (queue s)" "item = f y"
    by blast
  then show ?case
  proof cases
    case 1
    then show ?thesis by (rule r_settled.IH)
  next
    case 2
    from f show ?thesis unfolding 2(2) by (rule disjE) simp_all
  qed
next
  case (r_expand s draw uuid ident plat)
  from expandPlaylist_origin [OF r_expand.prems] r_expand.IH subItems_props
  show ?case by fastforce
next
  case (r_call s ident)
  then show ?case by (simp add: queue_startDownloadCall)
next
  case (r_all s)
  then show ?case by (simp add: queue_handleDownloadAll)
next
  case (r_start s c h st)
  from startDownloadRun_origin [OF r_start.prems] r_start.IH
  show ?case by auto
next
  case (r_tick s h increment speedVal)
  from tick_origin [OF r_tick.prems] r_tick.IH
  show ?case by auto
next
  case (r_remove s ident)
  then show ?case by (simp add: queue_removeItem)
next
  case (r_type s t)
  from chooseDownloadType_origin [OF r_type.prems] r_type.IH
  show ?case by auto
next
  case (r_clear s)
  then show ?case by (simp add: queue_clearHistory)
qed

subsection \<open>The ids of the queue\<close>

lemma map_id_item_map:
  assumes "\<And>x. id_item (g x) = id_item x"
  shows "map id_item (map g xs) = map id_item xs"
  by (induction xs) (simp_all add: assms)

lemma ids_updateItem:
  assumes "\<And>y. id_item (f y) = id_item y"
  shows "map id_item (queue (updateItem ident f s)) = map id_item (queue s)"
  unfolding queue_updateItem by (rule map_id_item_map) (simp add: assms)

lemma ids_analysisCallback:
  "map id_item (queue (analysisCallback parse ai p s)) = map id_item (queue s)"
proof -
  from queue_analysisCallback [of parse ai p s] obtain f where
    f: "f = (\<lambda>i. i \<lparr> status := Ready, result := Some (projr (analyzeLink parse ai (snd p))) \<rparr>)
      \<or> f = (\<lambda>i. i \<lparr> status := Error, errorMsg := Some (js ''Plataforma no soportada''),
                    result := Some (projr (analyzeLink parse ai (snd p))) \<rparr>)"
    and q: "queue (analysisCallback parse ai p s) = queue (updateItem (fst p) f s)"
    by blast
  from f have "\<And>y. id_item (f y) = id_item y"
    by (rule disjE) simp_all
  then show ?thesis unfolding q by (rule ids_updateItem)
qed

lemma ids_startDownload:
  "map id_item (queue (startDownload st h ident snap s)) = map id_item (queue s)"
  using queue_startDownload [of st h ident snap s]
  by (rule disjE) (simp_all add: ids_updateItem)

lemma ids_startDownloadRun:
  "map id_item (queue (startDownloadRun st h c s)) = map id_item (queue s)"
  by (simp add: startDownloadRun_def ids_startDownload)

lemma ids_tick:
  "map id_item (queue (tick increment speedVal h s)) = map id_item (queue s)"
  using queue_tick [of increment speedVal h s]
  by (elim disjE exE conjE) (simp_all add: ids_updateItem)

lemma ids_chooseDownloadType:
  "map id_item (queue (chooseDownloadType t s)) = map id_item (queue s)"
  unfolding queue_chooseDownloadType by (rule map_id_item_map) simp

lemma upt_pred: "map (\<lambda>i. i - 1) [1 ..< Suc n] = [0 ..< n]"
  by (induction n) simp_all

lemma ids_subItems: "map id_item (subItems uuid t item plat n) = map uuid [0 ..< n]"
proof -
  have "map id_item (subItems uuid t item plat n) = map (\<lambda>i. uuid (i - 1)) [1 ..< Suc n]"
    by (simp add: subItems_def subItem_def comp_def)
  also have "\<dots> = map uuid (map (\<lambda>i. i - 1) [1 ..< Suc n])"
    by (simp only: map_map comp_def)
  also have "\<dots> = map uuid [0 ..< n]"
    by (simp only: upt_pred)
  finally show ?thesis .
qed

lemma freshIds_iff:
  "freshIds ids s \<longleftrightarrow> distinct ids \<and> set ids \<inter> set (map id_item (queue s)) = {}"
  by (auto simp: freshIds_def list_all_iff)

lemma distinct_splice:
  assumes "distinct xs" "distinct ys" "set ys \<inter> set xs = {}" "k < length xs"
  shows "distinct (take k xs @ ys @ drop (Suc k) xs)"
proof -
  have "distinct (take k xs @ xs ! k # drop (Suc k) xs)"
    using assms(1,4) by (simp only: id_take_nth_drop [symmetric])
  moreover have "set (take k xs) \<subseteq> set xs" "set (drop (Suc k) xs) \<subseteq> set xs"
    by (auto dest: in_set_takeD in_set_dropD)
  ultimately show ?thesis
    using assms(2,3) by auto
qed

lemma ids_distinct_analyze:
  assumes "ids_distinct s"
    and "freshIds (map uuid [0 ..< length (Array_from_Set (extractUrls (inputText s)))]) s"
  shows "ids_distinct (handleAnalyzeBatch uuid s)"
proof -
  let ?new = "newItemsOf uuid (downloadType s) (Array_from_Set (extractUrls (inputText s)))"
  let ?added = "filter (\<lambda>i. url i \<notin> set (map url (queue s))) ?new"
  from assms(2) have fresh: "distinct (map id_item ?new)"
      "set (map id_item ?new) \<inter> set (map id_item (queue s)) = {}"
    by (simp_all only: freshIds_iff id_newItemsOf)
  have "distinct (map id_item ?added)"
    using fresh(1) by (rule distinct_map_filter)
  moreover have "set (map id_item ?added) \<subseteq> set (map id_item ?new)"
    by auto
  ultimately have "distinct (map id_item (?added @ queue s))"
    using fresh(2) assms(1) by (auto simp: ids_distinct_def)
  with queue_handleAnalyzeBatch [of uuid s] assms(1) show ?thesis
    by (auto simp: ids_distinct_def)
qed

lemma ids_distinct_expand:
  assumes "ids_distinct s" and "freshIds (map uuid [0 ..< draw + 3]) s"
  shows "ids_distinct (expandPlaylist uuid draw ident plat s)"
proof -
  from queue_expandPlaylist [of uuid draw ident plat s] show ?thesis
  proof (elim disjE exE conjE)
    assume "queue (expandPlaylist uuid draw ident plat s) = queue s"
    with assms(1) show ?thesis by (simp add: ids_distinct_def)
  next
    fix k
    assume k: "k < length (queue s)"
      and q: "queue (expandPlaylist uuid draw ident plat s) =
          take k (queue s) @ subItems uuid (downloadType s) (queue s ! k) plat (draw + 3)
          @ drop (Suc k) (queue s)"
    have "distinct (take k (map id_item (queue s)) @ map uuid [0 ..< draw + 3]
            @ drop (Suc k) (map id_item (queue s)))"
      using assms k by (intro distinct_splice) (simp_all add: ids_distinct_def freshIds_iff)
    then show ?thesis
      unfolding ids_distinct_def q by (simp add: ids_subItems take_map drop_map)
  qed
qed

lemma reachable_ids_distinct: "reachable s \<Longrightarrow> ids_distinct s"
proof (induction rule: reachable.induct)
  case (r_mount stored)
  show ?case by (simp add: ids_distinct_def queue_mount)
next
  case (r_input s v)
  then show ?case by (simp add: ids_distinct_def queue_handleInputChange)
next
  case (r_paste s clip)
  then show ?case by (simp add: ids_distinct_def queue_handlePaste)
next
  case (r_analyze s uuid)
  then show ?case by (intro ids_distinct_analyze)
next
  case (r_settled s p parse ai)
  then show ?case by (simp add: ids_distinct_def ids_analysisCallback)
next
  case (r_expand s draw uuid ident plat)
  then show ?case by (intro ids_distinct_expand)
next
  case (r_call s ident)
  then show ?case by (simp add: ids_distinct_def queue_startDownloadCall)
next
  case (r_all s)
  then show ?case by (simp add: ids_distinct_def queue_handleDownloadAll)
next
  case (r_start s c h st)
  then show ?case by (simp add: ids_distinct_def ids_startDownloadRun)
next
  case (r_tick s h increment speedVal)
  then show ?case by (simp add: ids_distinct_def ids_tick)
next
  case (r_remove s ident)
  then show ?case by (simp add: ids_distinct_def queue_removeItem distinct_map_filter)
next
  case (r_type s t)
  then show ?case by (simp add: ids_distinct_def ids_chooseDownloadType)
next
  case (r_clear s)
  then show ?case by (simp add: ids_distinct_def queue_clearHistory)
qed

text \<open>
  Claim C8. In every reachable state no two items of the queue have the same id. The
  items \<open>handleAnalyzeBatch\<close> and \<open>expandPlaylist\<close> create carry the identifiers drawn from
  \<^verbatim>\<open>crypto.randomUUID()\<close>, one draw per item, and with fresh draws both handlers keep the
  ids of the queue distinct; no other handler adds an item or changes an id.
\<close>

theorem queue_ids_unique:
  "(reachable s \<longrightarrow> distinct (map id_item (queue s)))
   \<and> map id_item (newItemsOf uuid t us) = map uuid [0 ..< length us]
   \<and> map id_item (subItems uuid t item plat n) = map uuid [0 ..< n]
   \<and> (ids_distinct s'
        \<and> freshIds (map uuid [0 ..< length (Array_from_Set (extractUrls (inputText s')))]) s'
        \<longrightarrow> ids_distinct (handleAnalyzeBatch uuid s'))
   \<and> (ids_distinct s' \<and> freshIds (map uuid [0 ..< draw + 3]) s'
        \<longrightarrow> ids_distinct (expandPlaylist uuid draw ident plat s'))"
  using reachable_ids_distinct [of s] id_newItemsOf [of uuid t us]
    ids_subItems [of uuid t item plat n] ids_distinct_analyze [of s' uuid]
    ids_distinct_expand [of s' uuid draw ident plat]
  by (simp add: ids_distinct_def)

theorem queue_ids_unique_witness:
  "reachable (handleAnalyzeBatch (\<lambda>k. js ''id'' @ dec k)
      (handleInputChange (js ''http://a http://b'') (mount None)))
   \<and> distinct (map id_item (queue (handleAnalyzeBatch (\<lambda>k. js ''id'' @ dec k)
      (handleInputChange (js ''http://a http://b'') (mount None)))))
   \<and> map id_item (queue (handleAnalyzeBatch (\<lambda>k. js ''id'' @ dec k)
      (handleInputChange (js ''http://a http://b'') (mount None))))
       = [js ''id0'', js ''id1'']"
proof -
  let ?uuid = "\<lambda>k. js ''id'' @ dec k"
  let ?s1 = "handleInputChange (js ''http://a http://b'') (mount None)"
  have urls: "Array_from_Set (extractUrls (inputText ?s1)) = [js ''http://a'', js ''http://b'']"
    by (simp add: handleInputChange_def mount_def initial_def js_def schemeLength_def isSpace_def
        Array_from_Set_def Set_add_def)
  have "reachable ?s1"
    by (intro r_input r_mount)
  moreover have "freshIds (map ?uuid [0 ..< length (Array_from_Set (extractUrls (inputText ?s1)))]) ?s1"
    unfolding urls
    by (simp add: freshIds_def handleInputChange_def mount_def initial_def js_def dec.simps upt_rec)
  ultimately have r: "reachable (handleAnalyzeBatch ?uuid ?s1)"
    by (rule r_analyze)
  from queue_ids_unique [of "handleAnalyzeBatch ?uuid ?s1", THEN conjunct1] r
  have d: "distinct (map id_item (queue (handleAnalyzeBatch ?uuid ?s1)))"
    by (rule mp)
  have "\<not> trimIsEmpty (inputText ?s1)"
    by (simp add: handleInputChange_def trimIsEmpty_def isSpace_def js_def)
  then have "map id_item (queue (handleAnalyzeBatch ?uuid ?s1)) = [js ''id0'', js ''id1'']"
    unfolding handleAnalyzeBatch_def Let_def urls
    by (simp add: newItemsOf_def newBatchItem_def
        handleInputChange_def mount_def initial_def js_def dec.simps)
  with r d show ?thesis by (intro conjI)
qed

subsection \<open>What each handler does to the intervals\<close>

lemma frame_mount: "timers (mount stored) = Map.empty \<and> intervalsRef (mount stored) = Map.empty"
  by (cases stored) (simp_all add: mount_def initial_def)

lemma frame_handleInputChange:
  "timers (handleInputChange v s) = timers s \<and> intervalsRef (handleInputChange v s) = intervalsRef s"
  by (simp add: handleInputChange_def)

lemma frame_handlePaste:
  "timers (handlePaste clip s) = timers s \<and> intervalsRef (handlePaste clip s) = intervalsRef s"
  by (cases clip) (simp_all add: handlePaste_def)

lemma frame_clearHistory:
  "timers (clearHistory s) = timers s \<and> intervalsRef (clearHistory s) = intervalsRef s"
  by (simp add: clearHistory_def)

lemma frame_addToHistory:
  "timers (addToHistory st r link s) = timers s \<and> intervalsRef (addToHistory st r link s) = intervalsRef s"
  by (simp add: addToHistory_def Let_def)

lemma frame_updateItem:
  "timers (updateItem ident f s) = timers s \<and> intervalsRef (updateItem ident f s) = intervalsRef s"
  by (simp add: updateItem_def)

lemma frame_handleAnalyzeBatch:
  "timers (handleAnalyzeBatch uuid s) = timers s
   \<and> intervalsRef (handleAnalyzeBatch uuid s) = intervalsRef s"
  by (simp add: handleAnalyzeBatch_def Let_def)

lemma frame_analysisCallback:
  "timers (analysisCallback parse ai p s) = timers s
   \<and> intervalsRef (analysisCallback parse ai p s) = intervalsRef s"
proof -
  obtain r where r: "analyzeLink parse ai (snd p) = Inr r"
    using analyzeLink_Inr by blast
  show ?thesis
    by (cases "isValid r")
       (simp_all add: analysisCallback_def analysisSettled_def r frame_updateItem)
qed

lemma frame_expandPlaylist:
  "timers (expandPlaylist uuid draw ident plat s) = timers s
   \<and> intervalsRef (expandPlaylist uuid draw ident plat s) = intervalsRef s"
  by (simp add: expandPlaylist_def Let_def split: option.split)

lemma frame_chooseDownloadType:
  "timers (chooseDownloadType t s) = timers s
   \<and> intervalsRef (chooseDownloadType t s) = intervalsRef s"
  by (simp add: chooseDownloadType_def)

lemma frame_startDownloadCall:
  "timers (startDownloadCall ident s) = timers s
   \<and> intervalsRef (startDownloadCall ident s) = intervalsRef s"
  by (simp add: startDownloadCall_def)

lemma frame_handleDownloadAll:
  "timers (handleDownloadAll s) = timers s \<and> intervalsRef (handleDownloadAll s) = intervalsRef s"
  by (simp add: handleDownloadAll_def)

lemma frame_removeItem:
  "timers (removeItem ident s) =
     (case intervalsRef s ident of None \<Rightarrow> timers s | Some h \<Rightarrow> (timers s)(h := None))
   \<and> intervalsRef (removeItem ident s) = intervalsRef s"
  by (cases "intervalsRef s ident") (simp_all add: removeItem_def clearInterval_def)

lemma startDownload_idle:
  assumes "\<not> (\<exists>item. find (\<lambda>q. id_item q = ident) snap = Some item \<and> status item = Ready)"
  shows "startDownload st h ident snap s = s"
proof (cases "find (\<lambda>q. id_item q = ident) snap")
  case None
  then show ?thesis by (simp add: startDownload_def)
next
  case (Some item)
  with assms have "status item \<noteq> Ready" by simp
  with Some show ?thesis by (simp add: startDownload_def)
qed

lemma startDownload_active:
  assumes "find (\<lambda>q. id_item q = ident) snap = Some item" and "status item = Ready"
  shows "timers (startDownload st h ident snap s) =
           (case intervalsRef s ident of None \<Rightarrow> timers s | Some old \<Rightarrow> (timers s)(old := None))
           (h \<mapsto> \<lparr> itemId = ident, acc = 0, isAudio = (type_item item = Audio) \<rparr>)
       \<and> intervalsRef (startDownload st h ident snap s) = (intervalsRef s)(ident \<mapsto> h)
       \<and> queue (startDownload st h ident snap s) =
           queue (updateItem ident (\<lambda>i. i \<lparr> status := Downloading, progress := 0 \<rparr>) s)"
proof -
  define s1 where "s1 = (case result item of
                        None \<Rightarrow> s
                      | Some r \<Rightarrow>
                          if \<not> includes_str (url item) (js ''&index='')
                          then addToHistory st r (url item) s else s)"
  define s2 where "s2 = updateItem ident (\<lambda>i. i \<lparr> status := Downloading, progress := 0 \<rparr>) s1"
  define s3 where "s3 = (case intervalsRef s2 ident of
                        None \<Rightarrow> s2
                      | Some old \<Rightarrow> clearInterval old s2)"
  have f1: "queue s1 = queue s" "timers s1 = timers s" "intervalsRef s1 = intervalsRef s"
    unfolding s1_def by (simp_all add: queue_addToHistory frame_addToHistory split: option.split)
  have f2: "queue s2 = queue (updateItem ident (\<lambda>i. i \<lparr> status := Downloading, progress := 0 \<rparr>) s)"
      "timers s2 = timers s" "intervalsRef s2 = intervalsRef s"
    unfolding s2_def by (simp_all add: queue_updateItem frame_updateItem f1)
  have f3: "queue s3 = queue s2" "intervalsRef s3 = intervalsRef s"
      "timers s3 = (case intervalsRef s ident of None \<Rightarrow> timers s | Some old \<Rightarrow> (timers s)(old := None))"
    unfolding s3_def by (simp_all add: clearInterval_def f2 split: option.split)
  have "startDownload st h ident snap s =
            s3 \<lparr> timers := (timers s3)
                       (h \<mapsto> \<lparr> itemId = ident, acc = 0, isAudio = (type_item item = Audio) \<rparr>),
                    intervalsRef := (intervalsRef s3)(ident \<mapsto> h) \<rparr>"
    using assms unfolding s3_def s2_def s1_def by (simp add: startDownload_def Let_def)
  then show ?thesis
    by (simp add: f2 f3)
qed

lemma tick_inactive: "timers s h = None \<Longrightarrow> tick increment speedVal h s = s"
  by (simp add: tick_def)

lemma tick_complete:
  assumes "timers s h = Some t" and "100 \<le> acc t + increment"
  shows "timers (tick increment speedVal h s) =
           (case intervalsRef s (itemId t) of
              None \<Rightarrow> (timers s)(h \<mapsto> t \<lparr> acc := 100 \<rparr>)
            | Some registered \<Rightarrow> ((timers s)(h \<mapsto> t \<lparr> acc := 100 \<rparr>))(registered := None))
       \<and> intervalsRef (tick increment speedVal h s) = (intervalsRef s)(itemId t := None)
       \<and> queue (tick increment speedVal h s) =
              queue (updateItem (itemId t)
                (\<lambda>i. i \<lparr> status := Completed, progress := 100,
                         phase := js ''Guardado'', timeLeft := js ''0s'' \<rparr>) s)"
  using assms
  by (simp add: tick_def Let_def updateItem_def clearInterval_def split: option.split)

lemma tick_progress:
  assumes "timers s h = Some t" and "acc t + increment < 100"
  shows "timers (tick increment speedVal h s) = (timers s)(h \<mapsto> t \<lparr> acc := acc t + increment \<rparr>)
       \<and> intervalsRef (tick increment speedVal h s) = intervalsRef s
       \<and> queue (tick increment speedVal h s) =
              queue (updateItem (itemId t)
                (\<lambda>i. i \<lparr> progress := min 100 (Math_round (acc t + increment)),
                         phase := phaseOf (isAudio t) (acc t + increment),
                         speed := speedVal @ js '' MB/s'' \<rparr>) s)"
  using assms
  by (simp add: tick_def Let_def updateItem_def)

subsection \<open>Progress and intervals\<close>

lemma progress_okI:
  assumes "\<And>x. x \<in> set (queue s) \<Longrightarrow>
             0 \<le> progress x \<and> progress x \<le> 100 \<and> (status x = Completed \<longrightarrow> progress x = 100)"
  shows "progress_ok s"
  unfolding progress_ok_def using assms by blast

lemma progress_okD:
  assumes "progress_ok s" and "x \<in> set (queue s)"
  shows "0 \<le> progress x \<and> progress x \<le> 100 \<and> (status x = Completed \<longrightarrow> progress x = 100)"
  using assms unfolding progress_ok_def by blast

lemma timers_okI:
  assumes "\<And>h t. timers s h = Some t \<Longrightarrow> 0 \<le> acc t"
    and "\<And>h t. timers s h = Some t \<Longrightarrow> intervalsRef s (itemId t) = Some h"
    and "\<And>h t x. timers s h = Some t \<Longrightarrow> x \<in> set (queue s) \<Longrightarrow> id_item x = itemId t
           \<Longrightarrow> status x \<noteq> Completed"
  shows "timers_ok s"
  unfolding timers_ok_def using assms by blast

lemma timers_okD:
  assumes "timers_ok s" and "timers s h = Some t"
  shows "0 \<le> acc t" and "intervalsRef s (itemId t) = Some h"
    and "\<And>x. x \<in> set (queue s) \<Longrightarrow> id_item x = itemId t \<Longrightarrow> status x \<noteq> Completed"
  using assms unfolding timers_ok_def by blast+

text \<open>
  A handler that starts no interval, registers none, and whose new or changed items are
  not completed (or are as an old item of the same id was) keeps both invariants.
\<close>

lemma inv_simple:
  assumes "progress_ok s" and "timers_ok s"
    and sub: "\<And>h t. timers s' h = Some t \<Longrightarrow> timers s h = Some t"
    and ref: "intervalsRef s' = intervalsRef s"
    and items: "\<And>x. x \<in> set (queue s') \<Longrightarrow>
        (status x \<noteq> Completed
           \<and> (progress x = 0 \<or> (\<exists>y \<in> set (queue s). progress x = progress y)))
        \<or> (\<exists>y \<in> set (queue s). id_item y = id_item x \<and> progress x = progress y
              \<and> status x = status y)"
  shows "progress_ok s' \<and> timers_ok s'"
proof
  show "progress_ok s'"
  proof (rule progress_okI)
    fix x assume "x \<in> set (queue s')"
    from items [OF this] progress_okD [OF assms(1)]
    show "0 \<le> progress x \<and> progress x \<le> 100 \<and> (status x = Completed \<longrightarrow> progress x = 100)"
      by (elim disjE conjE bexE) (simp, metis, metis)
  qed
next
  show "timers_ok s'"
  proof (rule timers_okI)
    fix h t assume "timers s' h = Some t"
    then have t: "timers s h = Some t" by (rule sub)
    from timers_okD(1) [OF assms(2) t] show "0 \<le> acc t" .
    from timers_okD(2) [OF assms(2) t] show "intervalsRef s' (itemId t) = Some h"
      by (simp only: ref)
    fix x assume x: "x \<in> set (queue s')" "id_item x = itemId t"
    show "status x \<noteq> Completed"
    proof
      assume c: "status x = Completed"
      with items [OF x(1)] obtain y where "y \<in> set (queue s)" "id_item y = id_item x"
          "status x = status y"
        by blast
      with timers_okD(3) [OF assms(2) t, of y] x(2) c show False by simp
    qed
  qed
qed

lemma inv_mount: "progress_ok (mount stored) \<and> timers_ok (mount stored)"
proof
  show "progress_ok (mount stored)"
    by (rule progress_okI) (simp add: queue_mount)
  show "timers_ok (mount stored)"
    by (rule timers_okI) (simp_all add: frame_mount)
qed

lemma inv_same_queue:
  assumes "progress_ok s" and "timers_ok s"
    and "queue s' = queue s" and "timers s' = timers s \<and> intervalsRef s' = intervalsRef s"
  shows "progress_ok s' \<and> timers_ok s'"
  using assms(1,2)
proof (rule inv_simple)
  fix h t assume "timers s' h = Some t"
  with assms(4) show "timers s h = Some t" by simp
next
  from assms(4) show "intervalsRef s' = intervalsRef s" by simp
next
  fix x assume "x \<in> set (queue s')"
  with assms(3) have "x \<in> set (queue s)" by simp
  then show "(status x \<noteq> Completed
           \<and> (progress x = 0 \<or> (\<exists>y \<in> set (queue s). progress x = progress y)))
        \<or> (\<exists>y \<in> set (queue s). id_item y = id_item x \<and> progress x = progress y
              \<and> status x = status y)"
    by blast
qed

lemma inv_handleAnalyzeBatch:
  assumes "progress_ok s" and "timers_ok s"
  shows "progress_ok (handleAnalyzeBatch uuid s) \<and> timers_ok (handleAnalyzeBatch uuid s)"
  using assms
proof (rule inv_simple)
  fix h t assume "timers (handleAnalyzeBatch uuid s) h = Some t"
  then show "timers s h = Some t" by (simp add: frame_handleAnalyzeBatch)
next
  show "intervalsRef (handleAnalyzeBatch uuid s) = intervalsRef s"
    by (simp add: frame_handleAnalyzeBatch)
next
  fix x assume "x \<in> set (queue (handleAnalyzeBatch uuid s))"
  from handleAnalyzeBatch_origin [OF this]
  show "(status x \<noteq> Completed
           \<and> (progress x = 0 \<or> (\<exists>y \<in> set (queue s). progress x = progress y)))
        \<or> (\<exists>y \<in> set (queue s). id_item y = id_item x \<and> progress x = progress y
              \<and> status x = status y)"
  proof (elim disjE exE)
    assume "x \<in> set (queue s)"
    then show ?thesis by blast
  next
    fix k u assume "x = newBatchItem (downloadType s) (uuid k) u"
    then have "status x \<noteq> Completed \<and> progress x = 0"
      by (simp add: newBatchItem_def)
    then show ?thesis by blast
  qed
qed

lemma inv_analysisCallback:
  assumes "progress_ok s" and "timers_ok s"
  shows "progress_ok (analysisCallback parse ai p s) \<and> timers_ok (analysisCallback parse ai p s)"
  using assms
proof (rule inv_simple)
  fix h t assume "timers (analysisCallback parse ai p s) h = Some t"
  then show "timers s h = Some t" by (simp add: frame_analysisCallback)
next
  show "intervalsRef (analysisCallback parse ai p s) = intervalsRef s"
    by (simp add: frame_analysisCallback)
next
  fix x assume x: "x \<in> set (queue (analysisCallback parse ai p s))"
  from queue_analysisCallback [of parse ai p s] obtain f where
    f: "f = (\<lambda>i. i \<lparr> status := Ready, result := Some (projr (analyzeLink parse ai (snd p))) \<rparr>)
      \<or> f = (\<lambda>i. i \<lparr> status := Error, errorMsg := Some (js ''Plataforma no soportada''),
                    result := Some (projr (analyzeLink parse ai (snd p))) \<rparr>)"
    and q: "queue (analysisCallback parse ai p s) = queue (updateItem (fst p) f s)"
    by blast
  from f have fp: "\<And>y. status (f y) \<noteq> Completed \<and> progress (f y) = progress y"
    by (rule disjE) simp_all
  from x have "x \<in> set (queue (updateItem (fst p) f s))"
    by (simp only: q)
  from updateItem_origin [OF this]
  show "(status x \<noteq> Completed
           \<and> (progress x = 0 \<or> (\<exists>y \<in> set (queue s). progress x = progress y)))
        \<or> (\<exists>y \<in> set (queue s). id_item y = id_item x \<and> progress x = progress y
              \<and> status x = status y)"
  proof (elim disjE conjE bexE)
    assume "x \<in> set (queue s)"
    then show ?thesis by blast
  next
    fix y assume "y \<in> set (queue s)" "x = f y"
    with fp [of y] show ?thesis by blast
  qed
qed

lemma inv_expandPlaylist:
  assumes "progress_ok s" and "timers_ok s"
  shows "progress_ok (expandPlaylist uuid draw ident plat s)
       \<and> timers_ok (expandPlaylist uuid draw ident plat s)"
  using assms
proof (rule inv_simple)
  fix h t assume "timers (expandPlaylist uuid draw ident plat s) h = Some t"
  then show "timers s h = Some t" by (simp add: frame_expandPlaylist)
next
  show "intervalsRef (expandPlaylist uuid draw ident plat s) = intervalsRef s"
    by (simp add: frame_expandPlaylist)
next
  fix x assume "x \<in> set (queue (expandPlaylist uuid draw ident plat s))"
  from expandPlaylist_origin [OF this]
  show "(status x \<noteq> Completed
           \<and> (progress x = 0 \<or> (\<exists>y \<in> set (queue s). progress x = progress y)))
        \<or> (\<exists>y \<in> set (queue s). id_item y = id_item x \<and> progress x = progress y
              \<and> status x = status y)"
  proof (elim disjE exE)
    assume "x \<in> set (queue s)"
    then show ?thesis by blast
  next
    fix item assume "x \<in> set (subItems uuid (downloadType s) item plat (draw + 3))"
    from subItems_props [OF this] have "status x \<noteq> Completed \<and> progress x = 0"
      by simp
    then show ?thesis by blast
  qed
qed

lemma inv_chooseDownloadType:
  assumes "progress_ok s" and "timers_ok s"
  shows "progress_ok (chooseDownloadType t s) \<and> timers_ok (chooseDownloadType t s)"
  using assms
proof (rule inv_simple)
  fix h t' assume "timers (chooseDownloadType t s) h = Some t'"
  then show "timers s h = Some t'" by (simp add: frame_chooseDownloadType)
next
  show "intervalsRef (chooseDownloadType t s) = intervalsRef s"
    by (simp add: frame_chooseDownloadType)
next
  fix x assume "x \<in> set (queue (chooseDownloadType t s))"
  from chooseDownloadType_origin [OF this] obtain y where
    y: "y \<in> set (queue s)" "x = y \<or> x = y \<lparr> type_item := t \<rparr>"
    by blast
  from y(2) have "id_item y = id_item x \<and> progress x = progress y \<and> status x = status y"
    by (rule disjE) simp_all
  with y(1) show "(status x \<noteq> Completed
           \<and> (progress x = 0 \<or> (\<exists>y \<in> set (queue s). progress x = progress y)))
        \<or> (\<exists>y \<in> set (queue s). id_item y = id_item x \<and> progress x = progress y
              \<and> status x = status y)"
    by blast
qed

lemma inv_removeItem:
  assumes "progress_ok s" and "timers_ok s"
  shows "progress_ok (removeItem ident s) \<and> timers_ok (removeItem ident s)"
  using assms
proof (rule inv_simple)
  fix h t assume "timers (removeItem ident s) h = Some t"
  then show "timers s h = Some t"
    by (cases "intervalsRef s ident") (simp_all add: frame_removeItem split: if_splits)
next
  show "intervalsRef (removeItem ident s) = intervalsRef s"
    by (simp add: frame_removeItem)
next
  fix x assume "x \<in> set (queue (removeItem ident s))"
  then have "x \<in> set (queue s)" by (simp add: queue_removeItem)
  then show "(status x \<noteq> Completed
           \<and> (progress x = 0 \<or> (\<exists>y \<in> set (queue s). progress x = progress y)))
        \<or> (\<exists>y \<in> set (queue s). id_item y = id_item x \<and> progress x = progress y
              \<and> status x = status y)"
    by blast
qed


lemma Math_round_bounds:
  assumes "0 \<le> p"
  shows "0 \<le> min 100 (Math_round p) \<and> min 100 (Math_round p) \<le> 100"
proof -
  from assms have "0 \<le> p + 1 / 2" by simp
  then have "0 \<le> Math_round p" unfolding Math_round_def by (simp only: zero_le_floor)
  then show ?thesis by simp
qed

lemma inv_startDownload:
  assumes "progress_ok s" and "timers_ok s"
  shows "progress_ok (startDownload st h ident snap s) \<and> timers_ok (startDownload st h ident snap s)"
proof (cases "\<exists>item. find (\<lambda>q. id_item q = ident) snap = Some item \<and> status item = Ready")
  case False
  then have "startDownload st h ident snap s = s" by (rule startDownload_idle)
  with assms show ?thesis by simp
next
  case True
  then obtain item where item: "find (\<lambda>q. id_item q = ident) snap = Some item"
      "status item = Ready"
    by blast
  let ?s' = "startDownload st h ident snap s"
  let ?base = "case intervalsRef s ident of None \<Rightarrow> timers s | Some old \<Rightarrow> (timers s)(old := None)"
  let ?new = "\<lparr> itemId = ident, acc = 0, isAudio = (type_item item = Audio) \<rparr>"
  from startDownload_active [OF item, of st h]
  have tm: "timers ?s' = ?base(h \<mapsto> ?new)"
    and rf: "intervalsRef ?s' = (intervalsRef s)(ident \<mapsto> h)"
    and qu: "queue ?s' = queue (updateItem ident (\<lambda>i. i \<lparr> status := Downloading, progress := 0 \<rparr>) s)"
    by simp_all
  have origin: "(x \<in> set (queue s) \<and> id_item x \<noteq> ident)
      \<or> (id_item x = ident \<and> status x = Downloading \<and> progress x = 0)"
    if "x \<in> set (queue ?s')" for x
  proof -
    from that have "x \<in> set (queue (updateItem ident (\<lambda>i. i \<lparr> status := Downloading, progress := 0 \<rparr>) s))"
      by (simp only: qu)
    from updateItem_origin [OF this] show ?thesis by auto
  qed
  have base: "timers s h' = Some t' \<and> intervalsRef s ident \<noteq> Some h'"
    if "?base h' = Some t'" for h' t'
    using that by (cases "intervalsRef s ident") (auto split: if_splits)
  show ?thesis
  proof
    show "progress_ok ?s'"
    proof (rule progress_okI)
      fix x assume "x \<in> set (queue ?s')"
      from origin [OF this] progress_okD [OF assms(1), of x]
      show "0 \<le> progress x \<and> progress x \<le> 100 \<and> (status x = Completed \<longrightarrow> progress x = 100)"
        by auto
    qed
  next
    show "timers_ok ?s'"
    proof (rule timers_okI)
      fix h' t' assume a: "timers ?s' h' = Some t'"
      have cases: "(h' = h \<and> t' = ?new) \<or> (h' \<noteq> h \<and> ?base h' = Some t')"
        using a unfolding tm by (auto split: if_splits)
      show "0 \<le> acc t'"
        using cases
      proof (elim disjE conjE)
        assume "t' = ?new" then show ?thesis by simp
      next
        assume "?base h' = Some t'"
        from base [OF this] timers_okD(1) [OF assms(2)] show ?thesis by blast
      qed
      show "intervalsRef ?s' (itemId t') = Some h'"
        using cases
      proof (elim disjE conjE)
        assume "h' = h" "t' = ?new" then show ?thesis by (simp add: rf)
      next
        assume "?base h' = Some t'"
        from base [OF this] have b: "timers s h' = Some t'" "intervalsRef s ident \<noteq> Some h'"
          by simp_all
        from timers_okD(2) [OF assms(2) b(1)] have r: "intervalsRef s (itemId t') = Some h'" .
        with b(2) have "itemId t' \<noteq> ident" by auto
        with r show ?thesis by (simp add: rf)
      qed
      fix x assume x: "x \<in> set (queue ?s')" "id_item x = itemId t'"
      show "status x \<noteq> Completed"
        using cases
      proof (elim disjE conjE)
        assume "t' = ?new"
        then have "itemId t' = ident" by simp
        with origin [OF x(1)] x(2) show ?thesis by auto
      next
        assume "?base h' = Some t'"
        from base [OF this] have b: "timers s h' = Some t'" "intervalsRef s ident \<noteq> Some h'"
          by simp_all
        from origin [OF x(1)] show ?thesis
        proof (elim disjE conjE)
          assume "x \<in> set (queue s)"
          from timers_okD(3) [OF assms(2) b(1) this x(2)] show ?thesis .
        next
          assume "status x = Downloading"
          then show ?thesis by simp
        qed
      qed
    qed
  qed
qed

lemma inv_startDownloadRun:
  assumes "progress_ok s" and "timers_ok s"
  shows "progress_ok (startDownloadRun st h c s) \<and> timers_ok (startDownloadRun st h c s)"
proof -
  let ?s0 = "s \<lparr> scheduled := remove1 c (scheduled s) \<rparr>"
  from assms have "progress_ok ?s0 \<and> timers_ok ?s0"
    by (rule inv_same_queue) simp_all
  then show ?thesis
    unfolding startDownloadRun_def by (intro inv_startDownload) simp_all
qed

lemma inv_tick:
  assumes "progress_ok s" and "timers_ok s" and inc: "1 \<le> increment"
  shows "progress_ok (tick increment speedVal h s) \<and> timers_ok (tick increment speedVal h s)"
proof (cases "timers s h")
  case None
  then have "tick increment speedVal h s = s" by (rule tick_inactive)
  with assms show ?thesis by simp
next
  case (Some t)
  let ?s' = "tick increment speedVal h s"
  let ?p = "acc t + increment"
  note tk = timers_okD [OF assms(2) Some]
  from tk(1) inc have p0: "0 \<le> ?p" by simp
  show ?thesis
  proof (cases "100 \<le> ?p")
    case True
    from tick_complete [OF Some True, of speedVal] tk(2)
    have tm: "timers ?s' = (timers s)(h := None)"
      and rf: "intervalsRef ?s' = (intervalsRef s)(itemId t := None)"
      and qu: "queue ?s' = queue (updateItem (itemId t)
                (\<lambda>i. i \<lparr> status := Completed, progress := 100,
                         phase := js ''Guardado'', timeLeft := js ''0s'' \<rparr>) s)"
      by simp_all
    have origin: "(x \<in> set (queue s) \<and> id_item x \<noteq> itemId t)
        \<or> (id_item x = itemId t \<and> status x = Completed \<and> progress x = 100)"
      if "x \<in> set (queue ?s')" for x
    proof -
      from that have "x \<in> set (queue (updateItem (itemId t)
                (\<lambda>i. i \<lparr> status := Completed, progress := 100,
                         phase := js ''Guardado'', timeLeft := js ''0s'' \<rparr>) s))"
        by (simp only: qu)
      from updateItem_origin [OF this] show ?thesis by auto
    qed
    show ?thesis
    proof
      show "progress_ok ?s'"
      proof (rule progress_okI)
        fix x assume "x \<in> set (queue ?s')"
        from origin [OF this] progress_okD [OF assms(1), of x]
        show "0 \<le> progress x \<and> progress x \<le> 100 \<and> (status x = Completed \<longrightarrow> progress x = 100)"
          by auto
      qed
    next
      show "timers_ok ?s'"
      proof (rule timers_okI)
        fix h' t' assume "timers ?s' h' = Some t'"
        then have b: "h' \<noteq> h" "timers s h' = Some t'"
          unfolding tm by (auto split: if_splits)
        note tk' = timers_okD [OF assms(2) b(2)]
        from tk'(1) show "0 \<le> acc t'" .
        from tk'(2) tk(2) b(1) have ne: "itemId t' \<noteq> itemId t" by auto
        with tk'(2) show "intervalsRef ?s' (itemId t') = Some h'" by (simp add: rf)
        fix x assume x: "x \<in> set (queue ?s')" "id_item x = itemId t'"
        from origin [OF x(1)] x(2) ne have "x \<in> set (queue s)" by auto
        from tk'(3) [OF this x(2)] show "status x \<noteq> Completed" .
      qed
    qed
  next
    case False
    then have lt: "?p < 100" by simp
    from tick_progress [OF Some lt, of speedVal]
    have tm: "timers ?s' = (timers s)(h \<mapsto> t \<lparr> acc := ?p \<rparr>)"
      and rf: "intervalsRef ?s' = intervalsRef s"
      and qu: "queue ?s' = queue (updateItem (itemId t)
                (\<lambda>i. i \<lparr> progress := min 100 (Math_round ?p),
                         phase := phaseOf (isAudio t) ?p,
                         speed := speedVal @ js '' MB/s'' \<rparr>) s)"
      by simp_all
    have origin: "(x \<in> set (queue s) \<and> id_item x \<noteq> itemId t)
        \<or> (\<exists>y \<in> set (queue s). id_item y = itemId t \<and> id_item x = itemId t
              \<and> status x = status y \<and> progress x = min 100 (Math_round ?p))"
      if "x \<in> set (queue ?s')" for x
    proof -
      from that have "x \<in> set (queue (updateItem (itemId t)
                (\<lambda>i. i \<lparr> progress := min 100 (Math_round ?p),
                         phase := phaseOf (isAudio t) ?p,
                         speed := speedVal @ js '' MB/s'' \<rparr>) s))"
        by (simp only: qu)
      from updateItem_origin [OF this] show ?thesis by auto
    qed
    have alive: "status x \<noteq> Completed"
      if "x \<in> set (queue ?s')" "id_item x = itemId t" for x
    proof -
      from origin [OF that(1)] that(2) obtain y where
        y: "y \<in> set (queue s)" "id_item y = itemId t" "status x = status y"
        by blast
      from tk(3) [OF y(1,2)] y(3) show ?thesis by simp
    qed
    show ?thesis
    proof
      show "progress_ok ?s'"
      proof (rule progress_okI)
        fix x assume x: "x \<in> set (queue ?s')"
        from origin [OF x]
        show "0 \<le> progress x \<and> progress x \<le> 100 \<and> (status x = Completed \<longrightarrow> progress x = 100)"
        proof (elim disjE conjE bexE)
          assume "x \<in> set (queue s)"
          then show ?thesis by (rule progress_okD [OF assms(1)])
        next
          fix y assume "id_item x = itemId t" "progress x = min 100 (Math_round ?p)"
          with alive [OF x] Math_round_bounds [OF p0] show ?thesis by simp
        qed
      qed
    next
      show "timers_ok ?s'"
      proof (rule timers_okI)
        fix h' t' assume a: "timers ?s' h' = Some t'"
        have cases: "(h' = h \<and> t' = t \<lparr> acc := ?p \<rparr>) \<or> (h' \<noteq> h \<and> timers s h' = Some t')"
          using a unfolding tm by (auto split: if_splits)
        show "0 \<le> acc t'"
          using cases
        proof (elim disjE conjE)
          assume "t' = t \<lparr> acc := ?p \<rparr>" with p0 show ?thesis by simp
        next
          assume "timers s h' = Some t'"
          from timers_okD(1) [OF assms(2) this] show ?thesis .
        qed
        show "intervalsRef ?s' (itemId t') = Some h'"
          using cases
        proof (elim disjE conjE)
          assume "h' = h" "t' = t \<lparr> acc := ?p \<rparr>" with tk(2) show ?thesis by (simp add: rf)
        next
          assume "timers s h' = Some t'"
          from timers_okD(2) [OF assms(2) this] show ?thesis by (simp add: rf)
        qed
        fix x assume x: "x \<in> set (queue ?s')" "id_item x = itemId t'"
        show "status x \<noteq> Completed"
          using cases
        proof (elim disjE conjE)
          assume "t' = t \<lparr> acc := ?p \<rparr>"
          then have "itemId t' = itemId t" by simp
          with x show ?thesis by (intro alive) simp_all
        next
          assume b: "timers s h' = Some t'"
          from origin [OF x(1)] show ?thesis
          proof (elim disjE conjE bexE)
            assume "x \<in> set (queue s)"
            from timers_okD(3) [OF assms(2) b this x(2)] show ?thesis .
          next
            fix y assume y: "y \<in> set (queue s)" "id_item y = itemId t" "id_item x = itemId t"
              "status x = status y"
            from y(2,3) x(2) have "id_item y = itemId t'" by simp
            from timers_okD(3) [OF assms(2) b y(1) this] y(4) show ?thesis by simp
          qed
        qed
      qed
    qed
  qed
qed

lemma reachable_inv: "reachable s \<Longrightarrow> progress_ok s \<and> timers_ok s"
proof (induction rule: reachable.induct)
  case (r_mount stored)
  show ?case by (rule inv_mount)
next
  case (r_input s v)
  then show ?case
    by (intro inv_same_queue [of s]) (simp_all add: queue_handleInputChange frame_handleInputChange)
next
  case (r_paste s clip)
  then show ?case
    by (intro inv_same_queue [of s]) (simp_all add: queue_handlePaste frame_handlePaste)
next
  case (r_analyze s uuid)
  then show ?case by (intro inv_handleAnalyzeBatch) simp_all
next
  case (r_settled s p parse ai)
  then show ?case by (intro inv_analysisCallback) simp_all
next
  case (r_expand s draw uuid ident plat)
  then show ?case by (intro inv_expandPlaylist) simp_all
next
  case (r_call s ident)
  then show ?case
    by (intro inv_same_queue [of s]) (simp_all add: queue_startDownloadCall frame_startDownloadCall)
next
  case (r_all s)
  then show ?case
    by (intro inv_same_queue [of s]) (simp_all add: queue_handleDownloadAll frame_handleDownloadAll)
next
  case (r_start s c h st)
  then show ?case by (intro inv_startDownloadRun) simp_all
next
  case (r_tick s h increment speedVal)
  then show ?case by (intro inv_tick) simp_all
next
  case (r_remove s ident)
  then show ?case by (intro inv_removeItem) simp_all
next
  case (r_type s t)
  then show ?case by (intro inv_chooseDownloadType) simp_all
next
  case (r_clear s)
  then show ?case
    by (intro inv_same_queue [of s]) (simp_all add: queue_clearHistory frame_clearHistory)
qed

subsection \<open>The example session\<close>

lemma ex_id0: "ex_uuid 0 = js ''id0''"
  by (simp add: ex_uuid_def js_def dec.simps)

lemma ex_analyzing_fields:
  "queue ex_analyzing = [newBatchItem Video (js ''id0'') (js ''http://a'')]"
  "pending ex_analyzing = [(js ''id0'', js ''http://a'')]"
  "timers ex_analyzing = Map.empty"
  "intervalsRef ex_analyzing = Map.empty"
proof -
  let ?s1 = "handleInputChange (js ''http://a'') (mount None)"
  have urls: "Array_from_Set (extractUrls (inputText ?s1)) = [js ''http://a'']"
    by (simp add: handleInputChange_def mount_def initial_def js_def schemeLength_def isSpace_def
        Array_from_Set_def Set_add_def)
  have blank: "\<not> trimIsEmpty (inputText ?s1)"
    by (simp add: handleInputChange_def trimIsEmpty_def isSpace_def js_def)
  have s: "ex_analyzing =
      ?s1 \<lparr> queue := filter (\<lambda>i. url i \<notin> set (map url (queue ?s1)))
                        (newItemsOf ex_uuid (downloadType ?s1) [js ''http://a'']) @ queue ?s1,
            inputText := [],
            pending := pending ?s1 @ map (\<lambda>i. (id_item i, url i))
                        (newItemsOf ex_uuid (downloadType ?s1) [js ''http://a'']) \<rparr>"
    using blank unfolding ex_analyzing_def handleAnalyzeBatch_def Let_def urls by simp
  have n: "newItemsOf ex_uuid Video [js ''http://a''] = [newBatchItem Video (js ''id0'') (js ''http://a'')]"
    by (simp add: newItemsOf_def ex_id0)
  have f: "queue ?s1 = []" "pending ?s1 = []" "downloadType ?s1 = Video"
      "timers ?s1 = Map.empty" "intervalsRef ?s1 = Map.empty"
    by (simp_all add: handleInputChange_def mount_def initial_def)
  show "queue ex_analyzing = [newBatchItem Video (js ''id0'') (js ''http://a'')]"
    unfolding s by (simp add: f n newBatchItem_def)
  show "pending ex_analyzing = [(js ''id0'', js ''http://a'')]"
    unfolding s by (simp add: f n newBatchItem_def)
  show "timers ex_analyzing = Map.empty" "intervalsRef ex_analyzing = Map.empty"
    unfolding s by (simp_all add: f)
qed

lemma ex_analyzing_reachable: "reachable ex_analyzing"
proof -
  let ?s1 = "handleInputChange (js ''http://a'') (mount None)"
  have urls: "Array_from_Set (extractUrls (inputText ?s1)) = [js ''http://a'']"
    by (simp add: handleInputChange_def mount_def initial_def js_def schemeLength_def isSpace_def
        Array_from_Set_def Set_add_def)
  have "reachable ?s1"
    by (intro r_input r_mount)
  moreover have "freshIds (map ex_uuid [0 ..< length (Array_from_Set (extractUrls (inputText ?s1)))]) ?s1"
    unfolding urls by (simp add: freshIds_def handleInputChange_def mount_def initial_def)
  ultimately show ?thesis
    unfolding ex_analyzing_def by (rule r_analyze)
qed

lemma ex_ready_fields:
  "queue ex_ready = [(newBatchItem Video (js ''id0'') (js ''http://a''))
                       \<lparr> status := Ready, result := Some ex_result \<rparr>]"
  "timers ex_ready = Map.empty"
  "intervalsRef ex_ready = Map.empty"
proof -
  have a: "analyzeLink (\<lambda>t. Some ex_result) (\<lambda>u. ApiResponse (Some (js ''{}''))) (js ''http://a'')
      = Inr ex_result"
    by (simp add: analyzeLink_def analyzeLink_try_def js_def)
  have v: "isValid ex_result" by (simp add: ex_result_def)
  show "queue ex_ready = [(newBatchItem Video (js ''id0'') (js ''http://a''))
                       \<lparr> status := Ready, result := Some ex_result \<rparr>]"
    unfolding ex_ready_def analysisCallback_def
    by (simp add: a v analysisSettled_def queue_updateItem ex_analyzing_fields newBatchItem_def)
  show "timers ex_ready = Map.empty" "intervalsRef ex_ready = Map.empty"
    unfolding ex_ready_def by (simp_all add: frame_analysisCallback ex_analyzing_fields)
qed

lemma ex_ready_reachable: "reachable ex_ready"
  unfolding ex_ready_def
  by (rule r_settled [OF ex_analyzing_reachable]) (simp add: ex_analyzing_fields)

lemma ex_failed_fields:
  "map (\<lambda>i. (id_item i, status i)) (queue ex_failed) = [(js ''id0'', Error)]"
proof -
  have a: "analyzeLink (\<lambda>t. None) (\<lambda>u. ApiThrows) (js ''http://a'') = Inr fallbackResult"
    by (simp add: analyzeLink_def analyzeLink_try_def)
  have v: "\<not> isValid fallbackResult" by (simp add: fallbackResult_def)
  show ?thesis
    unfolding ex_failed_def analysisCallback_def
    by (simp add: a v analysisSettled_def queue_updateItem ex_analyzing_fields newBatchItem_def)
qed

lemma ex_failed_reachable: "reachable ex_failed"
  unfolding ex_failed_def
  by (rule r_settled [OF ex_analyzing_reachable]) (simp add: ex_analyzing_fields)

lemma ex_started_fields:
  "map (\<lambda>i. (id_item i, status i, progress i)) (queue ex_started) = [(js ''id0'', Downloading, 0)]"
  "timers ex_started = Map.empty (1 \<mapsto> \<lparr> itemId = js ''id0'', acc = 0, isAudio = False \<rparr>)"
  "intervalsRef ex_started = Map.empty (js ''id0'' \<mapsto> 1)"
proof -
  let ?item = "(newBatchItem Video (js ''id0'') (js ''http://a''))
                       \<lparr> status := Ready, result := Some ex_result \<rparr>"
  let ?c = "(js ''id0'', queue ex_ready)"
  define s0 where "s0 = ex_clicked \<lparr> scheduled := remove1 ?c (scheduled ex_clicked) \<rparr>"
  have s0: "queue s0 = queue ex_ready" "timers s0 = Map.empty" "intervalsRef s0 = Map.empty"
    by (simp_all add: s0_def ex_clicked_def startDownloadCall_def ex_ready_fields)
  have e: "ex_started = startDownload \<lparr> now_id = 17, random_id = js ''0.5'', now_ts = 17 \<rparr> 1
      (js ''id0'') (queue ex_ready) s0"
    by (simp add: ex_started_def startDownloadRun_def s0_def)
  have f: "find (\<lambda>q. id_item q = js ''id0'') (queue ex_ready) = Some ?item"
    by (simp add: ex_ready_fields newBatchItem_def)
  have r: "status ?item = Ready" by simp
  note a = startDownload_active [OF f r, of "\<lparr> now_id = 17, random_id = js ''0.5'', now_ts = 17 \<rparr>" 1 s0,
      folded e]
  from a show "timers ex_started = Map.empty (1 \<mapsto> \<lparr> itemId = js ''id0'', acc = 0, isAudio = False \<rparr>)"
    by (simp add: s0 newBatchItem_def)
  from a show "intervalsRef ex_started = Map.empty (js ''id0'' \<mapsto> 1)"
    by (simp add: s0)
  from a have "queue ex_started =
      queue (updateItem (js ''id0'') (\<lambda>i. i \<lparr> status := Downloading, progress := 0 \<rparr>) s0)"
    by simp
  then show "map (\<lambda>i. (id_item i, status i, progress i)) (queue ex_started) = [(js ''id0'', Downloading, 0)]"
    by (simp add: queue_updateItem s0 ex_ready_fields newBatchItem_def)
qed

lemma ex_clicked_reachable: "reachable ex_clicked"
  unfolding ex_clicked_def by (rule r_call [OF ex_ready_reachable])

lemma ex_started_reachable: "reachable ex_started"
  unfolding ex_started_def
  by (rule r_start [OF ex_clicked_reachable])
     (simp_all add: ex_clicked_def startDownloadCall_def ex_ready_fields)


lemma Math_round_of_int: "Math_round (of_int z) = z"
  unfolding Math_round_def by (rule floor_unique) simp_all

lemma ex_ticks_Suc: "ex_ticks (Suc n) = tick 5 (js ''7.5'') 1 (ex_ticks n)"
  by (simp add: ex_ticks_def)

lemma singleton_triple:
  assumes "map (\<lambda>i. (id_item i, status i, progress i)) q = [(a, v, p)]"
  obtains x where "q = [x]" "id_item x = a" "status x = v" "progress x = p"
  using assms by (cases q) auto

lemma ex_ticks_run:
  "n \<le> 19 \<Longrightarrow>
     reachable (ex_ticks n)
     \<and> timers (ex_ticks n) 1 = Some \<lparr> itemId = js ''id0'', acc = 5 * of_nat n, isAudio = False \<rparr>
     \<and> map (\<lambda>i. (id_item i, status i, progress i)) (queue (ex_ticks n))
         = [(js ''id0'', Downloading, 5 * int n)]"
proof (induction n)
  case 0
  have "ex_ticks 0 = ex_started" by (simp add: ex_ticks_def)
  then show ?case by (simp add: ex_started_reachable ex_started_fields)
next
  case (Suc n)
  let ?s = "ex_ticks n"
  let ?t = "\<lparr> itemId = js ''id0'', acc = 5 * of_nat n, isAudio = False \<rparr>"
  from Suc have IH: "reachable ?s" "timers ?s 1 = Some ?t"
      "map (\<lambda>i. (id_item i, status i, progress i)) (queue ?s) = [(js ''id0'', Downloading, 5 * int n)]"
    by simp_all
  from Suc.prems have n: "n \<le> 18" by simp
  then have "(of_nat n :: rat) \<le> 18" by (simp only: of_nat_le_iff [symmetric, where ?'a = rat] of_nat_numeral)
  then have lt: "acc ?t + 5 < 100" by simp
  note p = tick_progress [OF IH(2) lt, of "js ''7.5''", folded ex_ticks_Suc]
  have r: "reachable (ex_ticks (Suc n))"
    unfolding ex_ticks_Suc by (rule r_tick [OF IH(1)]) (insert IH(2), simp_all)
  have tm: "timers (ex_ticks (Suc n)) 1
      = Some \<lparr> itemId = js ''id0'', acc = 5 * of_nat (Suc n), isAudio = False \<rparr>"
    using p by (simp add: algebra_simps)
  from IH(3) obtain x where x: "queue ?s = [x]" "id_item x = js ''id0''" "status x = Downloading"
    by (rule singleton_triple)
  have "acc ?t + 5 = of_int (5 * int (Suc n))"
    by simp
  then have rd: "Math_round (acc ?t + 5) = 5 * int (Suc n)"
    by (simp only: Math_round_of_int)
  have "5 * int (Suc n) \<le> 100" using n by simp
  with p x rd have "map (\<lambda>i. (id_item i, status i, progress i)) (queue (ex_ticks (Suc n)))
         = [(js ''id0'', Downloading, 5 * int (Suc n))]"
    by (simp add: queue_updateItem)
  with r tm show ?case by simp
qed

lemma ex_completed:
  "reachable (ex_ticks 20)
   \<and> map (\<lambda>i. (id_item i, status i, progress i)) (queue (ex_ticks 20)) = [(js ''id0'', Completed, 100)]"
proof -
  let ?s = "ex_ticks 19"
  let ?t = "\<lparr> itemId = js ''id0'', acc = 5 * of_nat 19, isAudio = False \<rparr>"
  from ex_ticks_run [of 19] have IH: "reachable ?s" "timers ?s 1 = Some ?t"
      "map (\<lambda>i. (id_item i, status i, progress i)) (queue ?s) = [(js ''id0'', Downloading, 5 * int 19)]"
    by simp_all
  have e: "ex_ticks 20 = tick 5 (js ''7.5'') 1 ?s"
    using ex_ticks_Suc [of 19] by simp
  have ge: "100 \<le> acc ?t + 5" by simp
  note c = tick_complete [OF IH(2) ge, of "js ''7.5''", folded e]
  have r: "reachable (ex_ticks 20)"
    unfolding e by (rule r_tick [OF IH(1)]) (insert IH(2), simp_all)
  from IH(3) obtain x where x: "queue ?s = [x]" "id_item x = js ''id0''"
    by (rule singleton_triple)
  from c x have "map (\<lambda>i. (id_item i, status i, progress i)) (queue (ex_ticks 20))
      = [(js ''id0'', Completed, 100)]"
    by (simp add: queue_updateItem)
  with r show ?thesis by simp
qed

lemma status_attained:
  assumes "v \<in> set assigned_statuses"
  shows "\<exists>s. reachable s \<and> (\<exists>item \<in> set (queue s). status item = v)"
proof -
  have seen: "\<exists>item \<in> set q. status item = v"
    if "map (\<lambda>i. (id_item i, status i, progress i)) q = [(a, v, p)]" for q a p
    using that by (rule singleton_triple) simp
  have seen2: "\<exists>item \<in> set q. status item = v"
    if "map (\<lambda>i. (id_item i, status i)) q = [(a, v)]" for q a
    using that by (cases q) auto
  from assms consider "v = Analyzing" | "v = Ready" | "v = Downloading" | "v = Completed" | "v = Error"
    by (auto simp: assigned_statuses_def)
  then show ?thesis
  proof cases
    case 1
    have "\<exists>item \<in> set (queue ex_analyzing). status item = Analyzing"
      by (simp add: ex_analyzing_fields newBatchItem_def)
    with ex_analyzing_reachable 1 show ?thesis by blast
  next
    case 2
    have "\<exists>item \<in> set (queue ex_ready). status item = Ready"
      by (simp add: ex_ready_fields)
    with ex_ready_reachable 2 show ?thesis by blast
  next
    case 3
    from seen [OF ex_started_fields(1) [unfolded 3 [symmetric]]] ex_started_reachable
    show ?thesis by blast
  next
    case 4
    from ex_completed have "map (\<lambda>i. (id_item i, status i, progress i)) (queue (ex_ticks 20))
        = [(js ''id0'', v, 100)]"
      by (simp add: 4)
    from seen [OF this] ex_completed show ?thesis by blast
  next
    case 5
    from ex_failed_fields have "map (\<lambda>i. (id_item i, status i)) (queue ex_failed) = [(js ''id0'', v)]"
      by (simp add: 5)
    from seen2 [OF this] ex_failed_reachable show ?thesis by blast
  qed
qed

text \<open>
  Claim C3. The status of an item of a reachable queue is one of five values: analyzing,
  ready, downloading, completed, error. Each of the five occurs in some reachable queue.
  (The declared type has a sixth member, idle, which no handler assigns.)
\<close>

theorem status_five_values:
  "(reachable s \<longrightarrow> (\<forall>item \<in> set (queue s). status item \<in> set assigned_statuses))
   \<and> distinct assigned_statuses \<and> length assigned_statuses = 5
   \<and> (\<forall>v \<in> set assigned_statuses.
         \<exists>s'. reachable s' \<and> (\<exists>item \<in> set (queue s'). status item = v))"
proof (intro conjI impI ballI)
  fix item assume "reachable s" "item \<in> set (queue s)"
  then have "status item \<noteq> Idle" by (rule reachable_status)
  then show "status item \<in> set assigned_statuses"
    by (cases "status item") (simp_all add: assigned_statuses_def)
next
  fix v assume "v \<in> set assigned_statuses"
  then show "\<exists>s'. reachable s' \<and> (\<exists>item \<in> set (queue s'). status item = v)"
    by (rule status_attained)
qed (simp_all add: assigned_statuses_def)

theorem status_five_values_witness:
  "reachable ex_started
   \<and> list_all (\<lambda>item. status item \<in> set assigned_statuses) (queue ex_started)
   \<and> Completed \<in> set assigned_statuses
   \<and> (\<exists>s'. reachable s' \<and> (\<exists>item \<in> set (queue s'). status item = Completed))"
proof -
  note t = status_five_values [of ex_started]
  from t ex_started_reachable
  have "\<forall>item \<in> set (queue ex_started). status item \<in> set assigned_statuses"
    by blast
  then have a: "list_all (\<lambda>item. status item \<in> set assigned_statuses) (queue ex_started)"
    by (simp only: list_all_iff)
  have b: "Completed \<in> set assigned_statuses"
    by (simp add: assigned_statuses_def)
  from t b have "\<exists>s'. reachable s' \<and> (\<exists>item \<in> set (queue s'). status item = Completed)"
    by blast
  with ex_started_reachable a b show ?thesis by blast
qed

text \<open>
  Claim C9. In every reachable state the progress of every item lies between 0 and 100,
  and a completed item has progress 100. Items are created with progress 0, both by the
  analysis and by the expansion of a playlist. A run of an active interval writes, to the
  items of its id, either status completed with progress 100 (when the counted progress
  has reached 100) or the minimum of 100 and the rounded counted progress; a handle that
  is not active changes nothing.
\<close>

theorem progress_within_bounds:
  "(reachable s \<longrightarrow>
      (\<forall>item \<in> set (queue s).
         0 \<le> progress item \<and> progress item \<le> 100
         \<and> (status item = Completed \<longrightarrow> progress item = 100)))
   \<and> progress (newBatchItem t ident u) = 0
   \<and> (\<forall>sub \<in> set (subItems uuid t item plat n). progress sub = 0)
   \<and> (timers s' h = Some tm \<and> 100 \<le> acc tm + increment \<longrightarrow>
        queue (tick increment speedVal h s') =
          queue (updateItem (itemId tm)
            (\<lambda>i. i \<lparr> status := Completed, progress := 100,
                     phase := js ''Guardado'', timeLeft := js ''0s'' \<rparr>) s'))
   \<and> (timers s' h = Some tm \<and> acc tm + increment < 100 \<longrightarrow>
        queue (tick increment speedVal h s') =
          queue (updateItem (itemId tm)
            (\<lambda>i. i \<lparr> progress := min 100 (Math_round (acc tm + increment)),
                     phase := phaseOf (isAudio tm) (acc tm + increment),
                     speed := speedVal @ js '' MB/s'' \<rparr>) s'))
   \<and> (timers s' h = None \<longrightarrow> tick increment speedVal h s' = s')"
proof (intro conjI impI ballI)
  fix x assume "reachable s" and x: "x \<in> set (queue s)"
  then have "progress_ok s" by (simp add: reachable_inv)
  from progress_okD [OF this x]
  show "0 \<le> progress x" "progress x \<le> 100" by simp_all
  assume "status x = Completed"
  with progress_okD [OF \<open>progress_ok s\<close> x] show "progress x = 100" by simp
next
  show "progress (newBatchItem t ident u) = 0" by (simp add: newBatchItem_def)
next
  fix sub assume "sub \<in> set (subItems uuid t item plat n)"
  from subItems_props [OF this] show "progress sub = 0" by simp
next
  assume "timers s' h = Some tm \<and> 100 \<le> acc tm + increment"
  then have "timers s' h = Some tm" "100 \<le> acc tm + increment" by simp_all
  from tick_complete [OF this, of speedVal]
  show "queue (tick increment speedVal h s') =
          queue (updateItem (itemId tm)
            (\<lambda>i. i \<lparr> status := Completed, progress := 100,
                     phase := js ''Guardado'', timeLeft := js ''0s'' \<rparr>) s')"
    by simp
next
  assume "timers s' h = Some tm \<and> acc tm + increment < 100"
  then have "timers s' h = Some tm" "acc tm + increment < 100" by simp_all
  from tick_progress [OF this, of speedVal]
  show "queue (tick increment speedVal h s') =
          queue (updateItem (itemId tm)
            (\<lambda>i. i \<lparr> progress := min 100 (Math_round (acc tm + increment)),
                     phase := phaseOf (isAudio tm) (acc tm + increment),
                     speed := speedVal @ js '' MB/s'' \<rparr>) s')"
    by simp
next
  assume "timers s' h = None"
  then show "tick increment speedVal h s' = s'" by (rule tick_inactive)
qed

theorem progress_within_bounds_witness:
  "reachable (ex_ticks 3)
   \<and> map (\<lambda>i. (id_item i, status i, progress i)) (queue (ex_ticks 3)) = [(js ''id0'', Downloading, 15)]
   \<and> list_all (\<lambda>item. 0 \<le> progress item \<and> progress item \<le> 100) (queue (ex_ticks 3))
   \<and> reachable (ex_ticks 20)
   \<and> map (\<lambda>i. (id_item i, status i, progress i)) (queue (ex_ticks 20)) = [(js ''id0'', Completed, 100)]
   \<and> list_all (\<lambda>item. 0 \<le> progress item \<and> progress item \<le> 100) (queue (ex_ticks 20))"
proof -
  from ex_ticks_run [of 3] have r3: "reachable (ex_ticks 3)"
    and q3: "map (\<lambda>i. (id_item i, status i, progress i)) (queue (ex_ticks 3)) = [(js ''id0'', Downloading, 15)]"
    by simp_all
  from progress_within_bounds [of "ex_ticks 3", THEN conjunct1] r3
  have "\<forall>item \<in> set (queue (ex_ticks 3)).
         0 \<le> progress item \<and> progress item \<le> 100
         \<and> (status item = Completed \<longrightarrow> progress item = 100)"
    by (rule mp)
  then have b3: "list_all (\<lambda>item. 0 \<le> progress item \<and> progress item \<le> 100) (queue (ex_ticks 3))"
    unfolding list_all_iff by blast
  from ex_completed have r20: "reachable (ex_ticks 20)"
    and q20: "map (\<lambda>i. (id_item i, status i, progress i)) (queue (ex_ticks 20)) = [(js ''id0'', Completed, 100)]"
    by simp_all
  from progress_within_bounds [of "ex_ticks 20", THEN conjunct1] r20
  have "\<forall>item \<in> set (queue (ex_ticks 20)).
         0 \<le> progress item \<and> progress item \<le> 100
         \<and> (status item = Completed \<longrightarrow> progress item = 100)"
    by (rule mp)
  then have b20: "list_all (\<lambda>item. 0 \<le> progress item \<and> progress item \<le> 100) (queue (ex_ticks 20))"
    unfolding list_all_iff by blast
  from r3 q3 b3 r20 q20 b20 show ?thesis by (intro conjI)
qed

subsection \<open>Registered handles\<close>

lemma handles_inj_same:
  assumes "handles_inj s" and "intervalsRef s' = intervalsRef s"
  shows "handles_inj s'"
  using assms unfolding handles_inj_def by simp

lemma handles_inj_startDownload:
  assumes "handles_inj s" and "h \<notin> ran (intervalsRef s)"
  shows "handles_inj (startDownload st h ident snap s)"
proof (cases "\<exists>item. find (\<lambda>q. id_item q = ident) snap = Some item \<and> status item = Ready")
  case False
  then have "startDownload st h ident snap s = s" by (rule startDownload_idle)
  with assms show ?thesis by simp
next
  case True
  then obtain item where item: "find (\<lambda>q. id_item q = ident) snap = Some item"
      "status item = Ready"
    by blast
  from startDownload_active [OF item, of st h]
  have rf: "intervalsRef (startDownload st h ident snap s) = (intervalsRef s)(ident \<mapsto> h)"
    by simp
  from assms(2) have fresh: "\<And>a. intervalsRef s a \<noteq> Some h"
    by (auto simp: ran_def)
  show ?thesis
    unfolding handles_inj_def rf
  proof (intro allI impI)
    fix a b h'
    assume a: "((intervalsRef s)(ident \<mapsto> h)) a = Some h'"
      and b: "((intervalsRef s)(ident \<mapsto> h)) b = Some h'"
    show "a = b"
    proof (cases "a = ident")
      case True
      with a have "h' = h" by simp
      with b fresh [of b] have "b = ident" by (auto split: if_splits)
      with True show ?thesis by simp
    next
      case False
      with a have ra: "intervalsRef s a = Some h'" by simp
      with fresh [of a] have "h' \<noteq> h" by auto
      with b have "intervalsRef s b = Some h'" by (auto split: if_splits)
      with ra assms(1) show ?thesis unfolding handles_inj_def by blast
    qed
  qed
qed

lemma handles_inj_startDownloadRun:
  assumes "handles_inj s" and "h \<notin> ran (intervalsRef s)"
  shows "handles_inj (startDownloadRun st h c s)"
proof -
  let ?s0 = "s \<lparr> scheduled := remove1 c (scheduled s) \<rparr>"
  from assms(1) have "handles_inj ?s0"
    by (rule handles_inj_same) simp
  moreover from assms(2) have "h \<notin> ran (intervalsRef ?s0)"
    by simp
  ultimately show ?thesis
    unfolding startDownloadRun_def by (rule handles_inj_startDownload)
qed

lemma handles_inj_tick:
  assumes "handles_inj s"
  shows "handles_inj (tick increment speedVal h s)"
proof (cases "timers s h")
  case None
  then have "tick increment speedVal h s = s" by (rule tick_inactive)
  with assms show ?thesis by simp
next
  case (Some t)
  show ?thesis
  proof (cases "100 \<le> acc t + increment")
    case True
    from tick_complete [OF Some True, of speedVal]
    have rf: "intervalsRef (tick increment speedVal h s) = (intervalsRef s)(itemId t := None)"
      by simp
    show ?thesis
      unfolding handles_inj_def rf
    proof (intro allI impI)
      fix a b h'
      assume "((intervalsRef s)(itemId t := None)) a = Some h'"
        and "((intervalsRef s)(itemId t := None)) b = Some h'"
      then have "intervalsRef s a = Some h'" "intervalsRef s b = Some h'"
        by (auto split: if_splits)
      with assms show "a = b" unfolding handles_inj_def by blast
    qed
  next
    case False
    then have lt: "acc t + increment < 100" by simp
    from assms show ?thesis
      by (rule handles_inj_same) (simp add: tick_progress [OF Some lt])
  qed
qed

lemma reachable_handles_inj: "reachable s \<Longrightarrow> handles_inj s"
proof (induction rule: reachable.induct)
  case (r_mount stored)
  show ?case by (simp add: handles_inj_def frame_mount)
next
  case (r_input s v)
  from r_input.IH show ?case by (rule handles_inj_same) (simp add: frame_handleInputChange)
next
  case (r_paste s clip)
  from r_paste.IH show ?case by (rule handles_inj_same) (simp add: frame_handlePaste)
next
  case (r_analyze s uuid)
  from r_analyze.IH show ?case by (rule handles_inj_same) (simp add: frame_handleAnalyzeBatch)
next
  case (r_settled s p parse ai)
  from r_settled.IH show ?case by (rule handles_inj_same) (simp add: frame_analysisCallback)
next
  case (r_expand s draw uuid ident plat)
  from r_expand.IH show ?case by (rule handles_inj_same) (simp add: frame_expandPlaylist)
next
  case (r_call s ident)
  from r_call.IH show ?case by (rule handles_inj_same) (simp add: frame_startDownloadCall)
next
  case (r_all s)
  from r_all.IH show ?case by (rule handles_inj_same) (simp add: frame_handleDownloadAll)
next
  case (r_start s c h st)
  then show ?case by (intro handles_inj_startDownloadRun) simp_all
next
  case (r_tick s h increment speedVal)
  then show ?case by (intro handles_inj_tick) simp_all
next
  case (r_remove s ident)
  from r_remove.IH show ?case by (rule handles_inj_same) (simp add: frame_removeItem)
next
  case (r_type s t)
  from r_type.IH show ?case by (rule handles_inj_same) (simp add: frame_chooseDownloadType)
next
  case (r_clear s)
  from r_clear.IH show ?case by (rule handles_inj_same) (simp add: frame_clearHistory)
qed

lemma distinct_map_count:
  "distinct (map f xs) \<Longrightarrow> length (filter (\<lambda>x. f x = a) xs) \<le> 1"
proof (induction xs)
  case Nil
  then show ?case by simp
next
  case (Cons x xs)
  show ?case
  proof (cases "f x = a")
    case True
    from Cons.prems have "f x \<notin> f ` set xs" by simp
    with True have "\<forall>y \<in> set xs. f y \<noteq> a" by (metis imageI)
    then have "filter (\<lambda>x. f x = a) xs = []" by (simp add: filter_empty_conv)
    with True show ?thesis by simp
  next
    case False
    with Cons show ?thesis by simp
  qed
qed

lemma history_removeItem: "history (removeItem ident s) = history s"
  by (cases "intervalsRef s ident") (simp_all add: removeItem_def clearInterval_def)

text \<open>
  Claim C7. \<open>removeItem\<close> removes from the queue the items of the given id and keeps the
  others in their order; it cancels the interval whose handle is registered for that id
  and changes no other interval; the registered handles and the history stay as they
  are. In a reachable state at most one item has the id, and the handle registered for
  another id is a different one, so the interval of every other item is as before.
\<close>

theorem removeItem_clears_timer:
  "queue (removeItem ident s) = filter (\<lambda>i. id_item i \<noteq> ident) (queue s)
   \<and> (\<forall>h. intervalsRef s ident = Some h \<longrightarrow> timers (removeItem ident s) h = None)
   \<and> (\<forall>h. intervalsRef s ident \<noteq> Some h \<longrightarrow> timers (removeItem ident s) h = timers s h)
   \<and> intervalsRef (removeItem ident s) = intervalsRef s
   \<and> history (removeItem ident s) = history s
   \<and> (reachable s \<longrightarrow>
        (\<forall>other h. other \<noteq> ident \<longrightarrow> intervalsRef s other = Some h \<longrightarrow>
           timers (removeItem ident s) h = timers s h))
   \<and> (reachable s \<longrightarrow> length (filter (\<lambda>i. id_item i = ident) (queue s)) \<le> 1)"
proof (intro conjI allI impI)
  show "queue (removeItem ident s) = filter (\<lambda>i. id_item i \<noteq> ident) (queue s)"
    by (rule queue_removeItem)
next
  fix h assume "intervalsRef s ident = Some h"
  then show "timers (removeItem ident s) h = None"
    by (simp add: frame_removeItem)
next
  fix h assume "intervalsRef s ident \<noteq> Some h"
  then show "timers (removeItem ident s) h = timers s h"
    by (cases "intervalsRef s ident") (simp_all add: frame_removeItem)
next
  show "intervalsRef (removeItem ident s) = intervalsRef s"
    by (simp add: frame_removeItem)
next
  show "history (removeItem ident s) = history s"
    by (rule history_removeItem)
next
  fix other h
  assume r: "reachable s" and o: "other \<noteq> ident" "intervalsRef s other = Some h"
  from reachable_handles_inj [OF r] o have "intervalsRef s ident \<noteq> Some h"
    unfolding handles_inj_def by blast
  then show "timers (removeItem ident s) h = timers s h"
    by (cases "intervalsRef s ident") (simp_all add: frame_removeItem)
next
  assume "reachable s"
  then have "distinct (map id_item (queue s))"
    using reachable_ids_distinct by (simp add: ids_distinct_def)
  then show "length (filter (\<lambda>i. id_item i = ident) (queue s)) \<le> 1"
    by (rule distinct_map_count)
qed

theorem removeItem_clears_timer_witness:
  "reachable ex_started
   \<and> intervalsRef ex_started (js ''id0'') = Some 1
   \<and> timers ex_started 1 \<noteq> None
   \<and> timers (removeItem (js ''id0'') ex_started) 1 = None
   \<and> queue (removeItem (js ''id0'') ex_started) = []"
proof -
  have reg: "intervalsRef ex_started (js ''id0'') = Some 1"
    and active: "timers ex_started 1 \<noteq> None"
    by (simp_all add: ex_started_fields)
  note t = removeItem_clears_timer [of "js ''id0''" ex_started]
  from t reg have cancelled: "timers (removeItem (js ''id0'') ex_started) 1 = None"
    by blast
  from t have "queue (removeItem (js ''id0'') ex_started)
      = filter (\<lambda>i. id_item i \<noteq> js ''id0'') (queue ex_started)"
    by blast
  moreover from ex_started_fields(1) obtain x where "queue ex_started = [x]" "id_item x = js ''id0''"
    by (rule singleton_triple)
  ultimately have "queue (removeItem (js ''id0'') ex_started) = []"
    by simp
  with ex_started_reachable reg active cancelled show ?thesis by (intro conjI)
qed

section \<open>Properties of the start of a download\<close>

text \<open>
  The guard of \<open>startDownload\<close> decides on the queue of its closure: when that queue has no
  item of the id, or its (first) item of the id is not ready, nothing happens. A call
  that runs on the queue it was made from is such a call whenever the current queue has
  no ready item of the id.
\<close>

lemma startDownload_guard:
  assumes "ident \<notin> id_item ` set snap
         \<or> (\<exists>item. find (\<lambda>q. id_item q = ident) snap = Some item \<and> status item \<noteq> Ready)"
  shows "startDownload st h ident snap s = s"
proof -
  from assms consider
      (absent) "find (\<lambda>q. id_item q = ident) snap = None"
    | (busy) item where "find (\<lambda>q. id_item q = ident) snap = Some item" "status item \<noteq> Ready"
    by (auto simp: find_None_iff)
  then show ?thesis
    by cases (simp_all add: startDownload_def)
qed

lemma startDownload_current_queue:
  assumes "ident \<notin> id_item ` set (queue s)
         \<or> (\<exists>item. find (\<lambda>q. id_item q = ident) (queue s) = Some item \<and> status item \<noteq> Ready)"
  shows "startDownload st h ident (queue s) s = s"
  using assms by (rule startDownload_guard)

lemma startDownload_history:
  assumes "find (\<lambda>q. id_item q = ident) snap = Some item" and "status item = Ready"
    and "result item = Some r" and "\<not> includes_str (url item) (js ''&index='')"
  shows "history (startDownload st h ident snap s) = history (addToHistory st r (url item) s)"
proof -
  define s1 where "s1 = addToHistory st r (url item) s"
  define s2 where "s2 = updateItem ident (\<lambda>i. i \<lparr> status := Downloading, progress := 0 \<rparr>) s1"
  define s3 where "s3 = (case intervalsRef s2 ident of
                        None \<Rightarrow> s2
                      | Some old \<Rightarrow> clearInterval old s2)"
  have h2: "history s2 = history s1"
    unfolding s2_def by (simp add: updateItem_def)
  have h3: "history s3 = history s2"
    unfolding s3_def by (simp add: clearInterval_def split: option.split)
  have "startDownload st h ident snap s =
            s3 \<lparr> timers := (timers s3)
                       (h \<mapsto> \<lparr> itemId = ident, acc = 0, isAudio = (type_item item = Audio) \<rparr>),
                    intervalsRef := (intervalsRef s3)(ident \<mapsto> h) \<rparr>"
    using assms unfolding s3_def s2_def s1_def by (simp add: startDownload_def Let_def)
  then have "history (startDownload st h ident snap s) = history s3"
    by simp
  then show ?thesis
    by (simp add: h3 h2 s1_def)
qed

subsection \<open>The second example session\<close>

lemma ex_id1: "ex_uuid 1 = js ''id1''"
  by (simp add: ex_uuid_def js_def dec.simps)

lemma ex2_urls:
  "Array_from_Set (extractUrls (inputText (handleInputChange (js ''http://a http://b'') (mount None))))
     = [js ''http://a'', js ''http://b'']"
  by (simp add: handleInputChange_def mount_def initial_def js_def schemeLength_def isSpace_def
      Array_from_Set_def Set_add_def)

lemma ex2_analyzing_fields:
  "queue ex2_analyzing = [newBatchItem Video (js ''id0'') (js ''http://a''),
                          newBatchItem Video (js ''id1'') (js ''http://b'')]"
  "pending ex2_analyzing = [(js ''id0'', js ''http://a''), (js ''id1'', js ''http://b'')]"
  "timers ex2_analyzing = Map.empty"
  "intervalsRef ex2_analyzing = Map.empty"
  "history ex2_analyzing = []"
  "scheduled ex2_analyzing = []"
proof -
  let ?s1 = "handleInputChange (js ''http://a http://b'') (mount None)"
  have blank: "\<not> trimIsEmpty (inputText ?s1)"
    by (simp add: handleInputChange_def trimIsEmpty_def isSpace_def js_def)
  have s: "ex2_analyzing =
      ?s1 \<lparr> queue := filter (\<lambda>i. url i \<notin> set (map url (queue ?s1)))
                        (newItemsOf ex_uuid (downloadType ?s1) [js ''http://a'', js ''http://b'']) @ queue ?s1,
            inputText := [],
            pending := pending ?s1 @ map (\<lambda>i. (id_item i, url i))
                        (newItemsOf ex_uuid (downloadType ?s1) [js ''http://a'', js ''http://b'']) \<rparr>"
    using blank unfolding ex2_analyzing_def handleAnalyzeBatch_def Let_def ex2_urls by simp
  have n: "newItemsOf ex_uuid Video [js ''http://a'', js ''http://b'']
      = [newBatchItem Video (js ''id0'') (js ''http://a''), newBatchItem Video (js ''id1'') (js ''http://b'')]"
    using ex_id1 by (simp add: newItemsOf_def ex_id0)
  have f: "queue ?s1 = []" "pending ?s1 = []" "downloadType ?s1 = Video"
      "timers ?s1 = Map.empty" "intervalsRef ?s1 = Map.empty" "history ?s1 = []" "scheduled ?s1 = []"
    by (simp_all add: handleInputChange_def mount_def initial_def)
  show "queue ex2_analyzing = [newBatchItem Video (js ''id0'') (js ''http://a''),
                          newBatchItem Video (js ''id1'') (js ''http://b'')]"
    unfolding s by (simp add: f n newBatchItem_def)
  show "pending ex2_analyzing = [(js ''id0'', js ''http://a''), (js ''id1'', js ''http://b'')]"
    unfolding s by (simp add: f n newBatchItem_def)
  show "timers ex2_analyzing = Map.empty" "intervalsRef ex2_analyzing = Map.empty"
    "history ex2_analyzing = []" "scheduled ex2_analyzing = []"
    unfolding s by (simp_all add: f)
qed

lemma ex2_analyzing_reachable: "reachable ex2_analyzing"
proof -
  let ?s1 = "handleInputChange (js ''http://a http://b'') (mount None)"
  have "reachable ?s1"
    by (intro r_input r_mount)
  moreover have "freshIds (map ex_uuid [0 ..< length (Array_from_Set (extractUrls (inputText ?s1)))]) ?s1"
    unfolding ex2_urls
    by (simp add: freshIds_def handleInputChange_def mount_def initial_def ex_uuid_def js_def
        dec.simps upt_rec)
  ultimately show ?thesis
    unfolding ex2_analyzing_def by (rule r_analyze)
qed

lemma ex2_ready_fields:
  "queue ex2_ready = [newBatchItem Video (js ''id0'') (js ''http://a''),
                      (newBatchItem Video (js ''id1'') (js ''http://b''))
                        \<lparr> status := Ready, result := Some ex_result \<rparr>]"
  "timers ex2_ready = Map.empty"
  "intervalsRef ex2_ready = Map.empty"
  "history ex2_ready = []"
  "scheduled ex2_ready = []"
proof -
  have a: "analyzeLink (\<lambda>t. Some ex_result) (\<lambda>u. ApiResponse (Some (js ''{}''))) (js ''http://b'')
      = Inr ex_result"
    by (simp add: analyzeLink_def analyzeLink_try_def js_def)
  have v: "isValid ex_result" by (simp add: ex_result_def)
  have e: "ex2_ready = updateItem (js ''id1'') (\<lambda>i. i \<lparr> status := Ready, result := Some ex_result \<rparr>)
      (ex2_analyzing \<lparr> pending := remove1 (js ''id1'', js ''http://b'') (pending ex2_analyzing) \<rparr>)"
    unfolding ex2_ready_def analysisCallback_def by (simp add: a v analysisSettled_def)
  show "queue ex2_ready = [newBatchItem Video (js ''id0'') (js ''http://a''),
                      (newBatchItem Video (js ''id1'') (js ''http://b''))
                        \<lparr> status := Ready, result := Some ex_result \<rparr>]"
    unfolding e by (simp add: queue_updateItem ex2_analyzing_fields newBatchItem_def js_def)
  show "timers ex2_ready = Map.empty" "intervalsRef ex2_ready = Map.empty"
    "history ex2_ready = []" "scheduled ex2_ready = []"
    unfolding e by (simp_all add: updateItem_def ex2_analyzing_fields)
qed

lemma ex2_ready_reachable: "reachable ex2_ready"
  unfolding ex2_ready_def
  by (rule r_settled [OF ex2_analyzing_reachable]) (simp add: ex2_analyzing_fields)

lemma ex2_removed_fields:
  "queue ex2_removed = [newBatchItem Video (js ''id0'') (js ''http://a'')]"
  "timers ex2_removed = Map.empty"
  "intervalsRef ex2_removed = Map.empty"
  "history ex2_removed = []"
  "scheduled ex2_removed = [(js ''id1'', queue ex2_ready)]"
proof -
  have all: "queue ex2_all = queue ex2_ready" "timers ex2_all = Map.empty"
      "intervalsRef ex2_all = Map.empty" "history ex2_all = []"
      "scheduled ex2_all = [(js ''id1'', queue ex2_ready)]"
    unfolding ex2_all_def handleDownloadAll_def
    by (simp_all add: ex2_ready_fields newBatchItem_def)
  have e: "ex2_removed = ex2_all \<lparr> queue := filter (\<lambda>i. id_item i \<noteq> js ''id1'') (queue ex2_all) \<rparr>"
    unfolding ex2_removed_def removeItem_def by (simp add: all)
  show "queue ex2_removed = [newBatchItem Video (js ''id0'') (js ''http://a'')]"
    unfolding e by (simp add: all ex2_ready_fields newBatchItem_def js_def)
  show "timers ex2_removed = Map.empty" "intervalsRef ex2_removed = Map.empty"
    "history ex2_removed = []" "scheduled ex2_removed = [(js ''id1'', queue ex2_ready)]"
    unfolding e by (simp_all add: all)
qed

lemma ex2_removed_reachable: "reachable ex2_removed"
  unfolding ex2_removed_def ex2_all_def
  by (intro r_remove r_all ex2_ready_reachable)

lemma ex2_stale_reachable: "reachable ex2_stale"
  unfolding ex2_stale_def
  by (rule r_start [OF ex2_removed_reachable]) (simp_all add: ex2_removed_fields)

lemma ex2_stale_fields:
  "queue ex2_stale = queue ex2_removed"
  "map url_hist (history ex2_stale) = [js ''http://b'']"
  "timers ex2_stale 1 = Some \<lparr> itemId = js ''id1'', acc = 0, isAudio = False \<rparr>"
  "intervalsRef ex2_stale (js ''id1'') = Some 1"
proof -
  let ?item = "(newBatchItem Video (js ''id1'') (js ''http://b''))
                        \<lparr> status := Ready, result := Some ex_result \<rparr>"
  let ?st = "\<lparr> now_id = 17, random_id = js ''0.5'', now_ts = 17 \<rparr>"
  define s0 where "s0 = ex2_removed
      \<lparr> scheduled := remove1 (js ''id1'', queue ex2_ready) (scheduled ex2_removed) \<rparr>"
  have s0: "queue s0 = queue ex2_removed" "timers s0 = Map.empty" "intervalsRef s0 = Map.empty"
      "history s0 = []"
    by (simp_all add: s0_def ex2_removed_fields)
  have e: "ex2_stale = startDownload ?st 1 (js ''id1'') (queue ex2_ready) s0"
    by (simp add: ex2_stale_def startDownloadRun_def s0_def)
  have f: "find (\<lambda>q. id_item q = js ''id1'') (queue ex2_ready) = Some ?item"
    by (simp add: ex2_ready_fields newBatchItem_def js_def)
  have r: "status ?item = Ready" by simp
  have res: "result ?item = Some ex_result" by simp
  have idx: "\<not> includes_str (url ?item) (js ''&index='')"
    by (simp add: newBatchItem_def js_def)
  note a = startDownload_active [OF f r, of ?st 1 s0, folded e]
  from a show "timers ex2_stale 1 = Some \<lparr> itemId = js ''id1'', acc = 0, isAudio = False \<rparr>"
    by (simp add: s0 newBatchItem_def)
  from a show "intervalsRef ex2_stale (js ''id1'') = Some 1"
    by (simp add: s0)
  from a have "queue ex2_stale =
      queue (updateItem (js ''id1'') (\<lambda>i. i \<lparr> status := Downloading, progress := 0 \<rparr>) s0)"
    by simp
  then show "queue ex2_stale = queue ex2_removed"
    by (simp add: queue_updateItem s0 ex2_removed_fields newBatchItem_def js_def)
  have v: "isValid ex_result" by (simp add: ex_result_def)
  from startDownload_history [OF f r res idx, of ?st 1 s0, folded e]
  show "map url_hist (history ex2_stale) = [js ''http://b'']"
    by (simp add: addToHistory_def v Let_def s0 newHistoryItem_def newBatchItem_def)
qed

text \<open>
  Claim C10 does not hold of a call that runs late. In the second example session the
  item of id \<^verbatim>\<open>id1\<close> is ready when "download all" is clicked, and is removed before the
  call scheduled for it runs. When that call runs, no item of the queue has the id, the
  history is empty and no interval is active; the call leaves the queue as it is, but it
  writes the link into the history and starts and registers an interval for the removed
  item.
\<close>

theorem startDownload_stale_call:
  "reachable ex2_removed
   \<and> (js ''id1'', queue ex2_ready) \<in> set (scheduled ex2_removed)
   \<and> js ''id1'' \<notin> id_item ` set (queue ex2_removed)
   \<and> history ex2_removed = []
   \<and> timers ex2_removed 1 = None
   \<and> intervalsRef ex2_removed (js ''id1'') = None
   \<and> ex2_stale = startDownloadRun \<lparr> now_id = 17, random_id = js ''0.5'', now_ts = 17 \<rparr> 1
                    (js ''id1'', queue ex2_ready) ex2_removed
   \<and> reachable ex2_stale
   \<and> queue ex2_stale = queue ex2_removed
   \<and> map url_hist (history ex2_stale) = [js ''http://b'']
   \<and> timers ex2_stale 1 = Some \<lparr> itemId = js ''id1'', acc = 0, isAudio = False \<rparr>
   \<and> intervalsRef ex2_stale (js ''id1'') = Some 1"
proof -
  have absent: "js ''id1'' \<notin> id_item ` set (queue ex2_removed)"
    by (simp add: ex2_removed_fields newBatchItem_def js_def)
  have before: "(js ''id1'', queue ex2_ready) \<in> set (scheduled ex2_removed)"
      "history ex2_removed = []" "timers ex2_removed 1 = None"
      "intervalsRef ex2_removed (js ''id1'') = None"
    by (simp_all add: ex2_removed_fields)
  from ex2_removed_reachable before absent ex2_stale_def ex2_stale_reachable ex2_stale_fields
  show ?thesis by (intro conjI)
qed

end
